theory Spec2Isabelle
  imports Complex_Main
begin

section \<open>Data model of \<^verbatim>\<open>src/js/dijkstra.js\<close>\<close>

text \<open>
  The graph handed to the two functions is JSON-shaped data:
  \<^verbatim>\<open>{ nodes: [{id, ...}], edges: [{from, to, distance, flow: {period: coefficient}}] }\<close>.
  Node ids are numbers (the doc comment of \<^verbatim>\<open>dijkstra\<close> types \<^verbatim>\<open>start\<close> and
  \<^verbatim>\<open>end\<close> as \<^verbatim>\<open>Number\<close>); they are modelled as \<open>nat\<close>, so that \<^verbatim>\<open>===\<close>, the
  membership test of a \<^verbatim>\<open>Set\<close> and the property keys of the objects \<^verbatim>\<open>dist\<close> and
  \<^verbatim>\<open>prev\<close> all agree with HOL equality.  The remaining attributes of a node are
  opaque to the algorithm.  An edge's \<^verbatim>\<open>flow\<close> property may be absent
  (\<open>None\<close>; a \<^verbatim>\<open>flow\<close> that is \<^verbatim>\<open>null\<close> behaves alike), and so may its
  \<^verbatim>\<open>weight\<close>, which only \<^verbatim>\<open>initEdgeWeights\<close> writes.
  The fields \<^verbatim>\<open>id\<close>, \<^verbatim>\<open>from\<close> and \<^verbatim>\<open>to\<close> are spelled \<open>nid\<close>, \<open>efrom\<close> and
  \<open>eto\<close>.

  A JavaScript number is an IEEE 754 double: a finite double is modelled by the real
  number it denotes, next to \<^verbatim>\<open>Infinity\<close>, \<^verbatim>\<open>-Infinity\<close> and \<^verbatim>\<open>NaN\<close>.  The two
  zeros are one value here: the program never divides, and \<^verbatim>\<open>+\<close>, \<^verbatim>\<open>*\<close>, \<^verbatim>\<open><\<close>,
  \<^verbatim>\<open>===\<close>, \<^verbatim>\<open>||\<close> and \<^verbatim>\<open>JSON.stringify\<close> do not tell them apart.  Distances and
  flow coefficients are finite numbers.  A \<^verbatim>\<open>weight\<close> holds a number or \<^verbatim>\<open>null\<close>,
  which is what \<^verbatim>\<open>JSON.stringify\<close> writes for a number that is not finite.
\<close>

datatype jsnum = Fin real | Infinity | NegInfinity | NaN

datatype jsval = Num jsnum | Null

record node =
  nid :: nat
  attrs :: "(string \<times> string) list"

record edge =
  efrom :: nat
  eto :: nat
  distance :: real
  flow :: "(string \<rightharpoonup> real) option"
  weight :: "jsval option"

record graph =
  nodes :: "node list"
  edges :: "edge list"

datatype error = TypeError

section \<open>Arithmetic of doubles\<close>

subsection \<open>Rounding\<close>

text \<open>
  The result of \<^verbatim>\<open>+\<close> or \<^verbatim>\<open>*\<close> on two finite doubles is the exact result rounded
  to the nearest double, a tie going to the double whose last mantissa bit is 0
  (\<^verbatim>\<open>roundTiesToEven\<close>).  A double has a mantissa of 53 bits: the doubles from
  \<^verbatim>\<open>2^e\<close> to \<^verbatim>\<open>2^(e+1)\<close> are the multiples of \<^verbatim>\<open>2^(e-52)\<close>, for \<^verbatim>\<open>e\<close> from
  \<^verbatim>\<open>-1022\<close> to \<^verbatim>\<open>1023\<close>, and those below \<^verbatim>\<open>2^(-1022)\<close> (the subnormal doubles)
  are the multiples of \<^verbatim>\<open>2^(-1074)\<close>.  A result that rounds to \<^verbatim>\<open>2^1024\<close> or
  beyond is \<^verbatim>\<open>Infinity\<close>, with its sign.
\<close>

text \<open>The nearest integer, a tie going to the even one.\<close>

definition round_half_even :: "real \<Rightarrow> int" where
  "round_half_even q =
     (let n = \<lfloor>q\<rfloor>; r = q - of_int n in
      if r < 1 / 2 then n else if 1 / 2 < r then n + 1 else if even n then n else n + 1)"

text \<open>The exponent \<open>e\<close> of the doubles around \<open>x\<close>, and the distance between them.\<close>

definition exponent :: "real \<Rightarrow> int" where
  "exponent x = max \<lfloor>log 2 \<bar>x\<bar>\<rfloor> (- 1022)"

definition ulp :: "real \<Rightarrow> real" where
  "ulp x = 2 powi (exponent x - 52)"

definition nearest :: "real \<Rightarrow> real" where
  "nearest x = of_int (round_half_even (x / ulp x)) * ulp x"

definition fl :: "real \<Rightarrow> jsnum" where
  "fl x =
     (if x = 0 then Fin 0
      else if 2 ^ 1024 \<le> nearest x then Infinity
      else if nearest x \<le> - (2 ^ 1024) then NegInfinity
      else Fin (nearest x))"

text \<open>The finite doubles: a mantissa of at most 53 bits, scaled by a power of two in
  the range of the exponents.\<close>

definition is_double :: "real \<Rightarrow> bool" where
  "is_double y \<longleftrightarrow>
     (\<exists>n k. y = of_int n * 2 powi k \<and> \<bar>n\<bar> < 2 ^ 53 \<and> - 1074 \<le> k \<and> k \<le> 971)"

text \<open>The double that a decimal literal of the source denotes, such as \<^verbatim>\<open>0.2\<close>.\<close>

definition dbl :: "real \<Rightarrow> real" where
  "dbl x = (case fl x of Fin y \<Rightarrow> y | _ \<Rightarrow> 0)"

subsection \<open>Operations\<close>

text \<open>\<^verbatim>\<open>+\<close>, \<^verbatim>\<open>*\<close> and \<^verbatim>\<open><\<close> on numbers.\<close>

fun js_add :: "jsnum \<Rightarrow> jsnum \<Rightarrow> jsnum" where
  "js_add (Fin a) (Fin b) = fl (a + b)"
| "js_add NaN _ = NaN"
| "js_add _ NaN = NaN"
| "js_add Infinity NegInfinity = NaN"
| "js_add NegInfinity Infinity = NaN"
| "js_add Infinity _ = Infinity"
| "js_add _ Infinity = Infinity"
| "js_add _ _ = NegInfinity"

fun js_mul :: "jsnum \<Rightarrow> jsnum \<Rightarrow> jsnum" where
  "js_mul (Fin a) (Fin b) = fl (a * b)"
| "js_mul NaN _ = NaN"
| "js_mul _ NaN = NaN"
| "js_mul (Fin a) Infinity = (if a = 0 then NaN else if 0 < a then Infinity else NegInfinity)"
| "js_mul (Fin a) NegInfinity = (if a = 0 then NaN else if 0 < a then NegInfinity else Infinity)"
| "js_mul Infinity (Fin b) = (if b = 0 then NaN else if 0 < b then Infinity else NegInfinity)"
| "js_mul NegInfinity (Fin b) = (if b = 0 then NaN else if 0 < b then NegInfinity else Infinity)"
| "js_mul Infinity Infinity = Infinity"
| "js_mul NegInfinity NegInfinity = Infinity"
| "js_mul _ _ = NegInfinity"

fun js_lt :: "jsnum \<Rightarrow> jsnum \<Rightarrow> bool" where
  "js_lt (Fin a) (Fin b) = (a < b)"
| "js_lt (Fin a) Infinity = True"
| "js_lt NegInfinity (Fin b) = True"
| "js_lt NegInfinity Infinity = True"
| "js_lt _ _ = False"

text \<open>
  A missing property reads as \<^verbatim>\<open>undefined\<close>, which \<^verbatim>\<open>+\<close> and \<^verbatim>\<open><\<close> coerce to
  \<^verbatim>\<open>NaN\<close>; \<^verbatim>\<open>null\<close> they coerce to 0.
\<close>

definition to_num :: "jsnum option \<Rightarrow> jsnum" where
  "to_num v = (case v of None \<Rightarrow> NaN | Some x \<Rightarrow> x)"

definition edge_weight :: "edge \<Rightarrow> jsnum" where
  "edge_weight e = (case weight e of None \<Rightarrow> NaN | Some Null \<Rightarrow> Fin 0 | Some (Num x) \<Rightarrow> x)"

section \<open>\<^verbatim>\<open>initEdgeWeights\<close>\<close>

text \<open>
  On values, \<^verbatim>\<open>JSON.parse(JSON.stringify(graph))\<close> rebuilds the JSON-shaped data of
  this model as it is, except that a \<^verbatim>\<open>weight\<close> that is not a finite number comes
  back as \<^verbatim>\<open>null\<close>.  The object identities it creates are the subject of the store
  model further below.
\<close>

definition json_weight :: "jsval \<Rightarrow> jsval" where
  "json_weight v = (case v of Num (Fin x) \<Rightarrow> Num (Fin x) | _ \<Rightarrow> Null)"

definition json_edge :: "edge \<Rightarrow> edge" where
  "json_edge e = e\<lparr>weight := map_option json_weight (weight e)\<rparr>"

definition json_graph :: "graph \<Rightarrow> graph" where
  "json_graph g = g\<lparr>edges := map json_edge (edges g)\<rparr>"

text \<open>
  The flow object of a parsed edge is a plain object.  Reading a property that it does
  not hold itself yields what \<^verbatim>\<open>Object.prototype\<close> holds under that name, if
  anything: a function under one of the names below, and under \<^verbatim>\<open>__proto__\<close> the
  prototype object.
\<close>

definition inherited :: "string \<Rightarrow> bool" where
  "inherited k \<longleftrightarrow>
     k \<in> set [''constructor'', ''hasOwnProperty'', ''isPrototypeOf'', ''propertyIsEnumerable'',
              ''toLocaleString'', ''toString'', ''valueOf'', ''__proto__'',
              ''__defineGetter__'', ''__defineSetter__'', ''__lookupGetter__'',
              ''__lookupSetter__'']"

text \<open>
  \<^verbatim>\<open>const flowRate = edge.flow[timePeriod] || 0.2\<close>: reading a property of an absent
  \<^verbatim>\<open>flow\<close> throws a \<^verbatim>\<open>TypeError\<close>; otherwise \<^verbatim>\<open>||\<close> yields its right operand when
  the left one is falsy, that is when the period is missing (\<^verbatim>\<open>undefined\<close>) and also
  when the stored coefficient is \<^verbatim>\<open>0\<close>.  A coefficient that the flow object holds
  itself comes first; an inherited member is truthy and is kept.
\<close>

datatype flow_value = Coefficient real | Member

definition flowRate :: "edge \<Rightarrow> string \<Rightarrow> error + flow_value" where
  "flowRate e timePeriod =
     (case flow e of
        None \<Rightarrow> Inl TypeError
      | Some f \<Rightarrow>
          (case f timePeriod of
             None \<Rightarrow> if inherited timePeriod then Inr Member else Inr (Coefficient (dbl 0.2))
           | Some c \<Rightarrow> if c = 0 then Inr (Coefficient (dbl 0.2)) else Inr (Coefficient c)))"

text \<open>
  \<^verbatim>\<open>edge.distance * (1 + flowRate)\<close>.  With an inherited member for \<^verbatim>\<open>flowRate\<close>,
  \<^verbatim>\<open>1 + flowRate\<close> is a string that starts with \<^verbatim>\<open>1function\<close> or \<^verbatim>\<open>1[object\<close>, and
  the product of a number and such a string is \<^verbatim>\<open>NaN\<close>.
\<close>

definition new_weight :: "edge \<Rightarrow> flow_value \<Rightarrow> jsnum" where
  "new_weight e r =
     (case r of
        Coefficient c \<Rightarrow> js_mul (Fin (distance e)) (js_add (Fin 1) (Fin c))
      | Member \<Rightarrow> NaN)"

text \<open>
  The \<^verbatim>\<open>forEach\<close> over the edges of the copy: each edge gets
  \<^verbatim>\<open>weight = distance * (1 + flowRate)\<close>; the first edge that throws aborts the call.
\<close>

fun setWeights :: "string \<Rightarrow> edge list \<Rightarrow> error + edge list" where
  "setWeights timePeriod [] = Inr []"
| "setWeights timePeriod (e # es) =
     (case flowRate e timePeriod of
        Inl err \<Rightarrow> Inl err
      | Inr r \<Rightarrow>
          (case setWeights timePeriod es of
             Inl err \<Rightarrow> Inl err
           | Inr es' \<Rightarrow> Inr (e\<lparr>weight := Some (Num (new_weight e r))\<rparr> # es')))"

definition initEdgeWeights :: "graph \<Rightarrow> string \<Rightarrow> error + graph" where
  "initEdgeWeights g timePeriod =
     (let updatedGraph = json_graph g in
      case setWeights timePeriod (edges updatedGraph) of
        Inl err \<Rightarrow> Inl err
      | Inr es \<Rightarrow> Inr (updatedGraph\<lparr>edges := es\<rparr>))"

section \<open>\<^verbatim>\<open>dijkstra\<close>\<close>

subsection \<open>Working tables\<close>

type_synonym dist_tbl = "nat \<rightharpoonup> jsnum"

type_synonym prev_tbl = "nat \<rightharpoonup> nat option"

text \<open>
  \<^verbatim>\<open>new Set(graph.nodes.map(node => node.id))\<close>: a \<^verbatim>\<open>Set\<close> keeps its members in
  insertion order and ignores a value it already holds.
\<close>

definition set_add :: "nat list \<Rightarrow> nat \<Rightarrow> nat list" where
  "set_add s x = (if x \<in> set s then s else s @ [x])"

definition new_Set :: "nat list \<Rightarrow> nat list" where
  "new_Set xs = foldl set_add [] xs"

text \<open>\<^verbatim>\<open>new Map(graph.nodes.map(node => [node.id, node]))\<close>: a later entry replaces an
  earlier one with the same key.\<close>

definition nodeMap :: "graph \<Rightarrow> nat \<rightharpoonup> node" where
  "nodeMap g = foldl (\<lambda>m n. m(nid n \<mapsto> n)) Map.empty (nodes g)"

text \<open>The state of the search loop: the objects \<^verbatim>\<open>dist\<close> and \<^verbatim>\<open>prev\<close> and the set
  \<^verbatim>\<open>unvisited\<close>.  In \<open>prevs\<close>, \<open>Some None\<close> is the stored value \<^verbatim>\<open>null\<close>.\<close>

record state =
  dists :: dist_tbl
  prevs :: prev_tbl
  unvisited :: "nat list"

definition init_node :: "nat \<Rightarrow> dist_tbl \<times> prev_tbl \<Rightarrow> node \<Rightarrow> dist_tbl \<times> prev_tbl" where
  "init_node start tbl n =
     ((fst tbl)(nid n \<mapsto> (if nid n = start then Fin 0 else Infinity)),
      (snd tbl)(nid n \<mapsto> None))"

definition init_state :: "nat \<Rightarrow> graph \<Rightarrow> state" where
  "init_state start g =
     (let tbl = foldl (init_node start) (Map.empty, Map.empty) (nodes g)
      in \<lparr>dists = fst tbl, prevs = snd tbl, unvisited = new_Set (map nid (nodes g))\<rparr>)"

subsection \<open>The search loop\<close>

text \<open>The \<^verbatim>\<open>forEach\<close> that selects \<^verbatim>\<open>minNodeId\<close>; \<open>None\<close> is \<^verbatim>\<open>null\<close>.\<close>

definition min_step :: "dist_tbl \<Rightarrow> nat option \<Rightarrow> nat \<Rightarrow> nat option" where
  "min_step dst m i =
     (case m of
        None \<Rightarrow> Some i
      | Some j \<Rightarrow> if js_lt (to_num (dst i)) (to_num (dst j)) then Some i else Some j)"

definition minNodeId :: "dist_tbl \<Rightarrow> nat list \<Rightarrow> nat option" where
  "minNodeId dst unv = foldl (min_step dst) None unv"

text \<open>The body of \<^verbatim>\<open>adjacentEdges.forEach\<close> for the selected node \<open>u\<close>.\<close>

definition relax :: "nat list \<Rightarrow> nat \<Rightarrow> dist_tbl \<times> prev_tbl \<Rightarrow> edge \<Rightarrow> dist_tbl \<times> prev_tbl" where
  "relax unv u tbl e =
     (let neighborId = eto e in
      if neighborId \<notin> set unv then tbl
      else
        let newDist = js_add (to_num (fst tbl u)) (edge_weight e) in
        if js_lt newDist (to_num (fst tbl neighborId))
        then ((fst tbl)(neighborId \<mapsto> newDist), (snd tbl)(neighborId \<mapsto> Some u))
        else tbl)"

datatype outcome = Break state | Continue state

text \<open>One pass through the body of \<^verbatim>\<open>while (unvisited.size > 0)\<close>.\<close>

definition iteration :: "graph \<Rightarrow> nat \<Rightarrow> state \<Rightarrow> outcome" where
  "iteration g endn s =
     (case minNodeId (dists s) (unvisited s) of
        None \<Rightarrow> Break s
      | Some m \<Rightarrow>
          if dists s m = Some Infinity then Break s
          else
            let unv = removeAll m (unvisited s) in
            if m = endn then Break (s\<lparr>unvisited := unv\<rparr>)
            else
              let adjacentEdges = filter (\<lambda>e. efrom e = m) (edges g);
                  tbl = foldl (relax unv m) (dists s, prevs s) adjacentEdges
              in Continue \<lparr>dists = fst tbl, prevs = snd tbl, unvisited = unv\<rparr>)"

lemma min_step_mem:
  "min_step dst m i = Some k \<Longrightarrow> k = i \<or> m = Some k"
  by (auto simp: min_step_def split: option.splits if_splits)

lemma foldl_min_step_mem:
  "foldl (min_step dst) m unv = Some k \<Longrightarrow> k \<in> set unv \<or> m = Some k"
proof (induction unv arbitrary: m)
  case Nil
  then show ?case by simp
next
  case (Cons a unv)
  from Cons.IH[OF Cons.prems[simplified]] show ?case
    by (auto dest: min_step_mem)
qed

lemma minNodeId_mem: "minNodeId dst unv = Some k \<Longrightarrow> k \<in> set unv"
  using foldl_min_step_mem[of dst None unv k] by (simp add: minNodeId_def)

lemma iteration_decreases:
  "iteration g endn s = Continue s' \<Longrightarrow> length (unvisited s') < length (unvisited s)"
  by (auto simp: iteration_def Let_def length_removeAll_less
      split: option.splits if_splits dest: minNodeId_mem)

function search :: "graph \<Rightarrow> nat \<Rightarrow> state \<Rightarrow> state" where
  "search g endn s =
     (if unvisited s = [] then s
      else
        (case iteration g endn s of
           Break s' \<Rightarrow> s'
         | Continue s' \<Rightarrow> search g endn s'))"
  by pat_completeness auto

termination
  by (relation "measure (\<lambda>(g, endn, s). length (unvisited s))")
     (auto dest: iteration_decreases)

declare search.simps [simp del]

subsection \<open>Path reconstruction\<close>

text \<open>
  The variable \<^verbatim>\<open>current\<close> holds a node id, \<^verbatim>\<open>null\<close>, or \<^verbatim>\<open>undefined\<close> (what
  \<^verbatim>\<open>prev[current]\<close> yields for a key that \<^verbatim>\<open>prev\<close> does not have).  With numeric
  ids, \<^verbatim>\<open>prev\<close> has no key \<^verbatim>\<open>"undefined"\<close> or \<^verbatim>\<open>"null"\<close>.
\<close>

datatype ref = NodeId nat | Null | Undefined

definition prev_lookup :: "prev_tbl \<Rightarrow> ref \<Rightarrow> ref" where
  "prev_lookup prev current =
     (case current of
        NodeId n \<Rightarrow>
          (case prev n of
             None \<Rightarrow> Undefined
           | Some None \<Rightarrow> Null
           | Some (Some p) \<Rightarrow> NodeId p)
      | Null \<Rightarrow> Undefined
      | Undefined \<Rightarrow> Undefined)"

text \<open>
  \<^verbatim>\<open>while (current !== null) { path.unshift(current); current = prev[current]; }\<close>.
  Nothing bounds this loop, so it is a partial function: \<open>None\<close> means that it does
  not return.
\<close>

partial_function (option) backtrack :: "prev_tbl \<Rightarrow> ref \<Rightarrow> ref list \<Rightarrow> ref list option" where
  "backtrack prev current path =
     (if current = Null then Some path
      else backtrack prev (prev_lookup prev current) (current # path))"

declare backtrack.simps [code]

text \<open>The \<^verbatim>\<open>for\<close> loop that adds up the distances of the first matching edges.\<close>

fun sumDistance :: "edge list \<Rightarrow> jsnum \<Rightarrow> ref list \<Rightarrow> jsnum" where
  "sumDistance es totalDistance (a # b # rest) =
     sumDistance es
       (case find (\<lambda>e. NodeId (efrom e) = a \<and> NodeId (eto e) = b) es of
          None \<Rightarrow> totalDistance
        | Some e \<Rightarrow> js_add totalDistance (Fin (distance e)))
       (b # rest)"
| "sumDistance es totalDistance _ = totalDistance"

record path_result =
  path :: "ref list"
  totalWeight :: "jsnum option"
  totalDistance :: jsnum
  pathNodes :: "node option list"

definition no_path :: path_result where
  "no_path = \<lparr>path = [], totalWeight = Some Infinity, totalDistance = Fin 0, pathNodes = []\<rparr>"

definition first_of :: "ref list \<Rightarrow> ref" where
  "first_of p = (case p of [] \<Rightarrow> Undefined | x # _ \<Rightarrow> x)"

definition node_of :: "graph \<Rightarrow> ref \<Rightarrow> node option" where
  "node_of g r = (case r of NodeId n \<Rightarrow> nodeMap g n | _ \<Rightarrow> None)"

definition dijkstra :: "nat \<Rightarrow> nat \<Rightarrow> graph \<Rightarrow> path_result option" where
  "dijkstra start endn g =
     (let s = search g endn (init_state start g) in
      case backtrack (prevs s) (NodeId endn) [] of
        None \<Rightarrow> None
      | Some p \<Rightarrow>
          Some (if first_of p \<noteq> NodeId start then no_path
                else \<lparr>path = p, totalWeight = dists s endn,
                      totalDistance = sumDistance (edges g) (Fin 0) p,
                      pathNodes = map (node_of g) p\<rparr>))"

section \<open>\<^verbatim>\<open>initEdgeWeights\<close> on a store of objects\<close>

text \<open>
  To speak about mutation and sharing, the graph is laid out in a store: a list of
  objects, an address being an index into it.  A graph object refers to its two arrays,
  an array to its elements, an edge object to its \<^verbatim>\<open>flow\<close> object; ids, distances,
  coefficients and node attributes are primitive values held in the objects.
  Allocation appends to the store, so the addresses below the length of the store are
  exactly the objects that exist.
\<close>

type_synonym addr = nat

datatype obj =
    GraphObj addr addr
  | ArrayObj "addr list"
  | NodeObj node
  | EdgeObj nat nat real "addr option" "jsval option"
  | FlowObj "string \<rightharpoonup> real"

type_synonym store = "obj list"

definition obj_at :: "store \<Rightarrow> addr \<Rightarrow> obj option" where
  "obj_at h a = (if a < length h then Some (h ! a) else None)"

subsection \<open>The value of a graph in the store\<close>

text \<open>What \<^verbatim>\<open>JSON.stringify\<close> serialises: the tree of values below an address.  \<open>None\<close>
  means that the store does not hold a graph of the expected shape there.\<close>

definition read_node :: "store \<Rightarrow> addr \<Rightarrow> node option" where
  "read_node h a = (case obj_at h a of Some (NodeObj n) \<Rightarrow> Some n | _ \<Rightarrow> None)"

definition read_edge :: "store \<Rightarrow> addr \<Rightarrow> edge option" where
  "read_edge h a =
     (case obj_at h a of
        Some (EdgeObj f t d fa w) \<Rightarrow>
          (case fa of
             None \<Rightarrow> Some \<lparr>efrom = f, eto = t, distance = d, flow = None, weight = w\<rparr>
           | Some fo \<Rightarrow>
               (case obj_at h fo of
                  Some (FlowObj m) \<Rightarrow>
                    Some \<lparr>efrom = f, eto = t, distance = d, flow = Some m, weight = w\<rparr>
                | _ \<Rightarrow> None))
      | _ \<Rightarrow> None)"

fun read_all :: "(addr \<Rightarrow> 'a option) \<Rightarrow> addr list \<Rightarrow> 'a list option" where
  "read_all rd [] = Some []"
| "read_all rd (a # as) =
     (case rd a of
        None \<Rightarrow> None
      | Some x \<Rightarrow> (case read_all rd as of None \<Rightarrow> None | Some xs \<Rightarrow> Some (x # xs)))"

definition read_array :: "store \<Rightarrow> addr \<Rightarrow> addr list option" where
  "read_array h a = (case obj_at h a of Some (ArrayObj as) \<Rightarrow> Some as | _ \<Rightarrow> None)"

definition read_graph :: "store \<Rightarrow> addr \<Rightarrow> graph option" where
  "read_graph h a =
     (case obj_at h a of
        Some (GraphObj na ea) \<Rightarrow>
          (case read_array h na of
             None \<Rightarrow> None
           | Some ns \<Rightarrow>
               (case read_array h ea of
                  None \<Rightarrow> None
                | Some es \<Rightarrow>
                    (case read_all (read_node h) ns of
                       None \<Rightarrow> None
                     | Some nl \<Rightarrow>
                         (case read_all (read_edge h) es of
                            None \<Rightarrow> None
                          | Some el \<Rightarrow> Some \<lparr>nodes = nl, edges = el\<rparr>))))
      | _ \<Rightarrow> None)"

subsection \<open>\<^verbatim>\<open>JSON.parse(JSON.stringify(graph))\<close>\<close>

text \<open>Parsing the serialisation builds the tree of values \<open>json_graph g\<close> out of new
  objects.\<close>

definition alloc :: "store \<Rightarrow> obj \<Rightarrow> store \<times> addr" where
  "alloc h ob = (h @ [ob], length h)"

definition alloc_node :: "store \<Rightarrow> node \<Rightarrow> store \<times> addr" where
  "alloc_node h n = alloc h (NodeObj n)"

definition alloc_edge :: "store \<Rightarrow> edge \<Rightarrow> store \<times> addr" where
  "alloc_edge h e =
     (case flow e of
        None \<Rightarrow> alloc h (EdgeObj (efrom e) (eto e) (distance e) None (weight e))
      | Some m \<Rightarrow>
          (case alloc h (FlowObj m) of
             (h1, fa) \<Rightarrow> alloc h1 (EdgeObj (efrom e) (eto e) (distance e) (Some fa) (weight e))))"

fun alloc_all :: "(store \<Rightarrow> 'a \<Rightarrow> store \<times> addr) \<Rightarrow> store \<Rightarrow> 'a list \<Rightarrow> store \<times> addr list" where
  "alloc_all f h [] = (h, [])"
| "alloc_all f h (x # xs) =
     (case f h x of
        (h1, a) \<Rightarrow> (case alloc_all f h1 xs of (h2, as) \<Rightarrow> (h2, a # as)))"

definition alloc_graph :: "store \<Rightarrow> graph \<Rightarrow> store \<times> addr" where
  "alloc_graph h g =
     (case alloc_all alloc_node h (nodes g) of
        (h1, ns) \<Rightarrow>
          (case alloc h1 (ArrayObj ns) of
             (h2, na) \<Rightarrow>
               (case alloc_all alloc_edge h2 (edges g) of
                  (h3, es) \<Rightarrow>
                    (case alloc h3 (ArrayObj es) of
                       (h4, ea) \<Rightarrow> alloc h4 (GraphObj na ea)))))"

definition json_copy :: "store \<Rightarrow> addr \<Rightarrow> (store \<times> addr) option" where
  "json_copy h a =
     (case read_graph h a of None \<Rightarrow> None | Some g \<Rightarrow> Some (alloc_graph h (json_graph g)))"

subsection \<open>The mutating loop and the function\<close>

definition set_weight :: "obj \<Rightarrow> jsnum \<Rightarrow> obj" where
  "set_weight ob x =
     (case ob of EdgeObj f t d fa w \<Rightarrow> EdgeObj f t d fa (Some (Num x)) | _ \<Rightarrow> ob)"

text \<open>\<^verbatim>\<open>updatedGraph.edges.forEach(edge => ...)\<close> over the addresses held by the edges
  array: \<^verbatim>\<open>edge.weight = ...\<close> overwrites one field of the object at that address.  An
  element without a usable \<^verbatim>\<open>flow\<close> makes \<^verbatim>\<open>edge.flow[timePeriod]\<close> throw.\<close>

fun store_weights :: "string \<Rightarrow> store \<Rightarrow> addr list \<Rightarrow> error option \<times> store" where
  "store_weights timePeriod h [] = (None, h)"
| "store_weights timePeriod h (a # as) =
     (case read_edge h a of
        None \<Rightarrow> (Some TypeError, h)
      | Some e \<Rightarrow>
          (case flowRate e timePeriod of
             Inl err \<Rightarrow> (Some err, h)
           | Inr r \<Rightarrow>
               store_weights timePeriod
                 (h[a := set_weight (h ! a) (new_weight e r)]) as))"

text \<open>The call on a store: the outcome (the address of \<^verbatim>\<open>updatedGraph\<close>, or the error
  thrown) together with the store after the call.  \<open>None\<close>: the argument is not the
  address of a graph.\<close>

definition initEdgeWeights_store ::
  "store \<Rightarrow> addr \<Rightarrow> string \<Rightarrow> ((error + addr) \<times> store) option" where
  "initEdgeWeights_store h graph timePeriod =
     (case json_copy h graph of
        None \<Rightarrow> None
      | Some (h1, updatedGraph) \<Rightarrow>
          (case obj_at h1 updatedGraph of
             Some (GraphObj na ea) \<Rightarrow>
               (case read_array h1 ea of
                  None \<Rightarrow> None
                | Some es \<Rightarrow>
                    (case store_weights timePeriod h1 es of
                       (None, h2) \<Rightarrow> Some (Inr updatedGraph, h2)
                     | (Some err, h2) \<Rightarrow> Some (Inl err, h2)))
           | _ \<Rightarrow> None))"

subsection \<open>Reachability\<close>

fun refs :: "obj \<Rightarrow> addr list" where
  "refs (GraphObj na ea) = [na, ea]"
| "refs (ArrayObj as) = as"
| "refs (NodeObj n) = []"
| "refs (EdgeObj f t d fa w) = (case fa of None \<Rightarrow> [] | Some fo \<Rightarrow> [fo])"
| "refs (FlowObj m) = []"

inductive reachable :: "store \<Rightarrow> addr \<Rightarrow> addr \<Rightarrow> bool" for h a where
  here: "reachable h a a"
| deref: "reachable h a b \<Longrightarrow> b < length h \<Longrightarrow> c \<in> set (refs (h ! b)) \<Longrightarrow> reachable h a c"

section \<open>Notions used to state the properties\<close>

subsection \<open>Graphs, paths and the tables of the search\<close>

text \<open>The ids that occur in \<^verbatim>\<open>graph.nodes\<close>.\<close>

definition node_ids :: "graph \<Rightarrow> nat set" where
  "node_ids g = set (map nid (nodes g))"

text \<open>An edge path from \<open>u\<close> to \<open>v\<close>: consecutive edges of the graph, each starting
  where the previous one ends.  The empty list is the path from a node to itself.\<close>

fun edge_path :: "graph \<Rightarrow> nat \<Rightarrow> edge list \<Rightarrow> nat \<Rightarrow> bool" where
  "edge_path g u [] v = (u = v)"
| "edge_path g u (e # es) v = (e \<in> set (edges g) \<and> efrom e = u \<and> edge_path g (eto e) es v)"

text \<open>The JavaScript sum of the weights along a path, added in path order as the
  search adds them.\<close>

definition wsum :: "edge list \<Rightarrow> jsnum" where
  "wsum es = foldl js_add (Fin 0) (map edge_weight es)"

text \<open>\<open>chain prev v p\<close>: following \<^verbatim>\<open>prev\<close> from \<open>v\<close> reaches \<^verbatim>\<open>null\<close>, and \<open>p\<close> lists
  the nodes met, the last one first met.\<close>

inductive chain :: "prev_tbl \<Rightarrow> nat \<Rightarrow> nat list \<Rightarrow> bool" where
  root: "prev v = Some None \<Longrightarrow> chain prev v [v]"
| link: "prev v = Some (Some u) \<Longrightarrow> chain prev u p \<Longrightarrow> chain prev v (p @ [v])"

text \<open>What the tables say about a node: either it is unvisited and untouched, or its
  \<^verbatim>\<open>dist\<close> is the sum, below \<^verbatim>\<open>Infinity\<close>, of the weights of an edge path from
  \<open>start\<close> through visited nodes, which the \<^verbatim>\<open>prev\<close> entries retrace.\<close>

definition tbl_ok ::
  "graph \<Rightarrow> nat \<Rightarrow> nat list \<Rightarrow> dist_tbl \<Rightarrow> prev_tbl \<Rightarrow> nat \<Rightarrow> bool" where
  "tbl_ok g start unv dst prv v \<longleftrightarrow>
     (dst v = Some Infinity \<and> prv v = Some None \<and> v \<in> set unv) \<or>
     (\<exists>es. edge_path g start es v \<and> dst v = Some (wsum es) \<and> js_lt (wsum es) Infinity \<and>
        chain prv v (start # map eto es) \<and> set (map efrom es) \<subseteq> node_ids g - set unv)"

text \<open>The invariant of the search loop, whatever the weights: the unvisited ids are ids
  of nodes, the tables have entries for the ids of nodes only, and each entry is
  consistent in the sense of \<open>tbl_ok\<close>.\<close>

definition search_inv :: "graph \<Rightarrow> nat \<Rightarrow> state \<Rightarrow> bool" where
  "search_inv g start s \<longleftrightarrow>
     set (unvisited s) \<subseteq> node_ids g \<and>
     (\<forall>v. v \<notin> node_ids g \<longrightarrow> dists s v = None \<and> prevs s v = None) \<and>
     (\<forall>v\<in>node_ids g. tbl_ok g start (unvisited s) (dists s) (prevs s) v)"



text \<open>A path is live when every node it enters is a node of the graph; edges into ids
  that \<^verbatim>\<open>graph.nodes\<close> does not hold are never followed by the search.\<close>

definition live :: "graph \<Rightarrow> edge list \<Rightarrow> bool" where
  "live g es \<longleftrightarrow> set (map eto es) \<subseteq> node_ids g"

text \<open>No weight is negative: every edge has a finite weight that is at least 0.\<close>

definition nonneg_weights :: "graph \<Rightarrow> bool" where
  "nonneg_weights g \<longleftrightarrow> (\<forall>e\<in>set (edges g). \<exists>w. weight e = Some (Num (Fin w)) \<and> 0 \<le> w)"

text \<open>The values that sums of such weights take: \<^verbatim>\<open>Infinity\<close>, or a double that is not
  negative.\<close>

definition nonneg_double :: "jsnum \<Rightarrow> bool" where
  "nonneg_double x \<longleftrightarrow> x = Infinity \<or> (\<exists>d. x = Fin d \<and> 0 \<le> d \<and> fl d = Fin d)"

text \<open>The number of the opposite sign.\<close>

fun js_neg :: "jsnum \<Rightarrow> jsnum" where
  "js_neg (Fin a) = Fin (- a)"
| "js_neg Infinity = NegInfinity"
| "js_neg NegInfinity = Infinity"
| "js_neg NaN = NaN"

text \<open>What the loop additionally maintains when no weight is negative: the start node
  is visited once the loop has run, the \<^verbatim>\<open>dist\<close> of a visited node is minimal among
  the sums of the live paths to it, every edge from a visited node into an unvisited one
  has been relaxed, and \<^verbatim>\<open>end\<close> is still unvisited.\<close>

definition opt_inv :: "graph \<Rightarrow> nat \<Rightarrow> nat \<Rightarrow> state \<Rightarrow> bool" where
  "opt_inv g start endn s \<longleftrightarrow>
     (start \<in> node_ids g - set (unvisited s) \<or> s = init_state start g) \<and>
     (\<forall>v\<in>node_ids g - set (unvisited s). \<exists>d. dists s v = Some (Fin d) \<and>
        (\<forall>es. edge_path g start es v \<and> live g es \<longrightarrow> \<not> js_lt (wsum es) (Fin d))) \<and>
     (\<forall>e\<in>set (edges g). efrom e \<in> node_ids g - set (unvisited s) \<and> eto e \<in> set (unvisited s) \<longrightarrow>
        \<not> js_lt (js_add (to_num (dists s (efrom e))) (edge_weight e)) (to_num (dists s (eto e)))) \<and>
     endn \<in> set (unvisited s)"

text \<open>The weight that \<^verbatim>\<open>initEdgeWeights\<close> writes for an edge of distance \<open>d\<close>
  whose flow mapping holds \<open>c\<close> for the period \<open>p\<close>.\<close>

definition written_weight :: "real \<Rightarrow> real option \<Rightarrow> string \<Rightarrow> jsnum" where
  "written_weight d c p =
     (case c of
        None \<Rightarrow> if inherited p then NaN else js_mul (Fin d) (js_add (Fin 1) (Fin (dbl 0.2)))
      | Some x \<Rightarrow> js_mul (Fin d) (js_add (Fin 1) (Fin (if x = 0 then dbl 0.2 else x))))"

text \<open>The two functions used in sequence:
  \<^verbatim>\<open>dijkstra(start, end, initEdgeWeights(graph, timePeriod))\<close>.\<close>

definition weigh_and_route :: "graph \<Rightarrow> string \<Rightarrow> nat \<Rightarrow> nat \<Rightarrow> path_result option" where
  "weigh_and_route g timePeriod start endn =
     (case initEdgeWeights g timePeriod of
        Inl err \<Rightarrow> None
      | Inr weighted \<Rightarrow> dijkstra start endn weighted)"

subsection \<open>Raising coefficients\<close>

text \<open>\<open>heavier e e'\<close>: the same edge with a weight that is not smaller.
  \<open>raised p e e'\<close>: the same edge, of non-negative distance and coefficients, where the
  coefficient for \<open>p\<close> is unchanged or raised from a positive value.\<close>

definition heavier :: "edge \<Rightarrow> edge \<Rightarrow> bool" where
  "heavier e e' \<longleftrightarrow>
     efrom e' = efrom e \<and> eto e' = eto e \<and>
     (\<exists>w w'. edge_weight e = Fin w \<and> edge_weight e' = Fin w' \<and> 0 \<le> w \<and> w \<le> w')"

definition raised :: "string \<Rightarrow> edge \<Rightarrow> edge \<Rightarrow> bool" where
  "raised p e e' \<longleftrightarrow>
     efrom e' = efrom e \<and> eto e' = eto e \<and> distance e' = distance e \<and> 0 \<le> distance e \<and>
     (\<exists>f f'. flow e = Some f \<and> flow e' = Some f' \<and>
        (f' p = f p \<and> (case f p of None \<Rightarrow> True | Some c \<Rightarrow> 0 \<le> c) \<or>
         (\<exists>c c'. f p = Some c \<and> f' p = Some c' \<and> 0 < c \<and> c \<le> c')))"

subsection \<open>Stores\<close>

text \<open>\<open>extends h h'\<close>: the store \<open>h'\<close> is \<open>h\<close> with objects appended.  \<open>closed_from n h\<close>:
  the objects at the addresses from \<open>n\<close> on refer to such addresses only.
  \<open>weights_only A h h'\<close>: the stores differ at most in the \<^verbatim>\<open>weight\<close> of edge objects
  at addresses in \<open>A\<close>.\<close>

definition extends :: "store \<Rightarrow> store \<Rightarrow> bool" where
  "extends h h' \<longleftrightarrow> (\<exists>ys. h' = h @ ys)"

definition closed_from :: "nat \<Rightarrow> store \<Rightarrow> bool" where
  "closed_from n h \<longleftrightarrow> (\<forall>a. n \<le> a \<and> a < length h \<longrightarrow> (\<forall>c\<in>set (refs (h ! a)). n \<le> c))"

definition weights_only :: "addr set \<Rightarrow> store \<Rightarrow> store \<Rightarrow> bool" where
  "weights_only A h h' \<longleftrightarrow>
     length h' = length h \<and>
     (\<forall>a<length h. h' ! a = h ! a \<or>
        (a \<in> A \<and> (\<exists>f t d fa w w'. h ! a = EdgeObj f t d fa w \<and> h' ! a = EdgeObj f t d fa w')))"

text \<open>An allocator for values read by \<open>rd\<close>: from a store whose objects from \<open>n\<close> on are
  closed it only appends, keeps that part closed, and returns a new address at which
  the value reads back.  A read is stable when appending objects does not change it.\<close>

definition allocator ::
  "nat \<Rightarrow> (store \<Rightarrow> addr \<Rightarrow> 'a option) \<Rightarrow> (store \<Rightarrow> 'a \<Rightarrow> store \<times> addr) \<Rightarrow> bool" where
  "allocator n rd f \<longleftrightarrow>
     (\<forall>h x h' a. f h x = (h', a) \<and> n \<le> length h \<and> closed_from n h \<longrightarrow>
        extends h h' \<and> closed_from n h' \<and> length h \<le> a \<and> a < length h' \<and> rd h' a = Some x)"

definition stable_read :: "(store \<Rightarrow> addr \<Rightarrow> 'a option) \<Rightarrow> bool" where
  "stable_read rd \<longleftrightarrow> (\<forall>h h' a x. extends h h' \<and> rd h a = Some x \<longrightarrow> rd h' a = Some x)"

section \<open>Example inputs\<close>

text \<open>A node with the id \<open>i\<close> and no further attributes; an edge from \<open>a\<close> to \<open>b\<close> of
  distance \<open>d\<close> with the flow mapping \<open>f\<close> and the weight \<open>w\<close>; a weight that is the
  finite number \<open>w\<close>.\<close>

definition mk_node :: "nat \<Rightarrow> node" where
  "mk_node i = \<lparr>nid = i, attrs = []\<rparr>"

definition mk_edge :: "nat \<Rightarrow> nat \<Rightarrow> real \<Rightarrow> (string \<rightharpoonup> real) option \<Rightarrow> jsval option \<Rightarrow> edge" where
  "mk_edge a b d f w = \<lparr>efrom = a, eto = b, distance = d, flow = f, weight = w\<rparr>"

abbreviation num :: "real \<Rightarrow> jsval option" where
  "num w \<equiv> Some (Num (Fin w))"

text \<open>One edge \<open>1 \<rightarrow> 2\<close> of distance 10 whose flow mapping is \<open>f\<close>.\<close>

definition one_edge_graph :: "(string \<rightharpoonup> real) option \<Rightarrow> graph" where
  "one_edge_graph f = \<lparr>nodes = [mk_node 1, mk_node 2], edges = [mk_edge 1 2 10 f None]\<rparr>"

lemmas example_defs = mk_node_def mk_edge_def one_edge_graph_def

text \<open>The definitions to unfold when the functions are run on an example.\<close>

lemmas search_eval =
  init_state_def init_node_def new_Set_def set_add_def iteration_def minNodeId_def
  min_step_def to_num_def relax_def edge_weight_def Let_def

lemmas dijkstra_eval =
  dijkstra_def search_eval backtrack.simps prev_lookup_def first_of_def node_of_def
  nodeMap_def no_path_def

text \<open>Weighted graphs on the nodes 1 and 2: with the edge \<open>1 \<rightarrow> 2\<close> of weight 12, and
  with no edge.  In \<open>tie_graph\<close> the nodes are listed in the order 3, 1, 2.\<close>

definition weighted_graph :: graph where
  "weighted_graph = \<lparr>nodes = [mk_node 1, mk_node 2], edges = [mk_edge 1 2 10 None (num 12)]\<rparr>"

definition isolated_graph :: graph where
  "isolated_graph = \<lparr>nodes = [mk_node 1, mk_node 2], edges = []\<rparr>"


text \<open>Nodes 1 and 3 only; the two edges \<open>1 \<rightarrow> 2 \<rightarrow> 3\<close> pass through the id 2, which
  is not a node.\<close>

definition dead_end_graph :: graph where
  "dead_end_graph = \<lparr>nodes = [mk_node 1, mk_node 3],
                     edges = [mk_edge 1 2 1 None (num 1), mk_edge 2 3 1 None (num 1)]\<rparr>"

text \<open>Nodes 1, 2 and 3; the direct edge \<open>1 \<rightarrow> 3\<close> weighs more than \<open>1 \<rightarrow> 2 \<rightarrow> 3\<close>.\<close>

definition detour_graph :: graph where
  "detour_graph = \<lparr>nodes = [mk_node 1, mk_node 2, mk_node 3],
                   edges = [mk_edge 1 3 10 None (num 10), mk_edge 1 2 2 None (num 2),
                            mk_edge 2 3 3 None (num 3)]\<rparr>"

text \<open>Nodes 1, 2 and 3 and the edges \<open>1 \<rightarrow> 2 \<rightarrow> 3\<close>, each of the weight \<^verbatim>\<open>2^1023\<close>, a
  double whose sum with itself is beyond the largest double.\<close>

definition huge :: real where
  "huge = 2 ^ 1023"

definition overflow_graph :: graph where
  "overflow_graph = \<lparr>nodes = [mk_node 1, mk_node 2, mk_node 3],
                     edges = [mk_edge 1 2 1 None (num huge), mk_edge 2 3 1 None (num huge)]\<rparr>"

text \<open>A store holding the graph with the nodes 1 and 2 and the edge \<open>1 \<rightarrow> 2\<close> of distance
  10 at address 6; the edge's flow object maps \<^verbatim>\<open>morning\<close> to 0.5.  In
  \<open>store_no_flow\<close> the edge has no flow object, and the graph is at address 5.\<close>

definition store_example :: store where
  "store_example =
     [NodeObj (mk_node 1), NodeObj (mk_node 2), ArrayObj [0, 1],
      FlowObj [''morning'' \<mapsto> 0.5], EdgeObj 1 2 10 (Some 3) None, ArrayObj [4],
      GraphObj 2 5]"

definition store_no_flow :: store where
  "store_no_flow =
     [NodeObj (mk_node 1), NodeObj (mk_node 2), ArrayObj [0, 1],
      EdgeObj 1 2 10 None None, ArrayObj [3], GraphObj 2 4]"

lemmas store_eval =
  initEdgeWeights_store_def json_copy_def read_graph_def read_array_def read_node_def
  read_edge_def obj_at_def alloc_graph_def alloc_node_def alloc_edge_def alloc_def
  set_weight_def flowRate_def json_graph_def json_edge_def

section \<open>Facts about the rounding\<close>

subsection \<open>Rounding to an integer, exponents\<close>

lemma round_half_even_of_int [simp]: "round_half_even (of_int n) = n"
  by (simp add: round_half_even_def)

lemma round_half_even_bounds: "\<lfloor>q\<rfloor> \<le> round_half_even q \<and> round_half_even q \<le> \<lfloor>q\<rfloor> + 1"
  by (simp add: round_half_even_def Let_def)

lemma round_half_even_mono: "a \<le> b \<Longrightarrow> round_half_even a \<le> round_half_even b"
proof -
  assume ab: "a \<le> b"
  then have le: "\<lfloor>a\<rfloor> \<le> \<lfloor>b\<rfloor>" by (rule floor_mono)
  show ?thesis
  proof (cases "\<lfloor>a\<rfloor> = \<lfloor>b\<rfloor>")
    case True
    with ab show ?thesis by (auto simp: round_half_even_def Let_def)
  next
    case False
    with le have "\<lfloor>a\<rfloor> + 1 \<le> \<lfloor>b\<rfloor>" by simp
    with round_half_even_bounds[of a] round_half_even_bounds[of b] show ?thesis by linarith
  qed
qed

lemma pow2_pos [simp]: "0 < (2::real) powi k"
  by simp

lemma pow2_mono: "a \<le> b \<Longrightarrow> (2::real) powi a \<le> 2 powi b"
  by (rule power_int_increasing) simp_all

lemma pow2_add: "(2::real) powi (a + b) = 2 powi a * 2 powi b"
  by (rule power_int_add) simp

lemma pow2_powr: "(2::real) powr (real_of_int k) = 2 powi k"
  by (rule powr_real_of_int') simp_all

text \<open>A positive number lies between the power of two of its logarithm's floor and the
  next one.\<close>

lemma floor_log2:
  assumes "0 < x"
  shows "2 powi \<lfloor>log 2 x\<rfloor> \<le> x \<and> x < 2 powi (\<lfloor>log 2 x\<rfloor> + 1)"
proof -
  have "\<lfloor>log 2 x\<rfloor> = \<lfloor>log 2 x\<rfloor>" ..
  then have "2 powr (real_of_int \<lfloor>log 2 x\<rfloor>) \<le> x \<and> x < 2 powr (real_of_int (\<lfloor>log 2 x\<rfloor> + 1))"
    using floor_log_eq_powr_iff[of x 2 "\<lfloor>log 2 x\<rfloor>"] assms by simp
  then show ?thesis by (simp only: pow2_powr)
qed

lemma floor_log2_eq:
  assumes "0 < x" "2 powi e \<le> x" "x < 2 powi (e + 1)"
  shows "\<lfloor>log 2 x\<rfloor> = e"
proof -
  have "2 powr (real_of_int e) \<le> x \<and> x < 2 powr (real_of_int (e + 1))"
    using assms by (simp only: pow2_powr)
  then show ?thesis using floor_log_eq_powr_iff[of x 2 e] assms(1) by simp
qed

lemma exponent_ge: "- 1022 \<le> exponent x"
  by (simp add: exponent_def)

lemma exponent_upper:
  assumes "0 < x"
  shows "x < 2 powi (exponent x + 1)"
proof -
  have "x < 2 powi (\<lfloor>log 2 x\<rfloor> + 1)" using floor_log2[OF assms] by simp
  also have "\<dots> \<le> 2 powi (exponent x + 1)"
    using assms by (intro pow2_mono) (simp add: exponent_def)
  finally show ?thesis .
qed

lemma exponent_lower:
  assumes "0 < x" and "- 1022 < exponent x"
  shows "2 powi (exponent x) \<le> x"
proof -
  from assms have "exponent x = \<lfloor>log 2 x\<rfloor>" by (simp add: exponent_def max_def split: if_splits)
  then show ?thesis using floor_log2[OF assms(1)] by simp
qed

lemma exponent_eq:
  assumes "0 < x" "2 powi e \<le> x" "x < 2 powi (e + 1)" "- 1022 \<le> e"
  shows "exponent x = e"
  using floor_log2_eq[OF assms(1,2,3)] assms(1,4) by (simp add: exponent_def)

lemma exponent_subnormal:
  assumes "0 < x" "x < 2 powi (- 1022)"
  shows "exponent x = - 1022"
proof -
  have "\<lfloor>log 2 x\<rfloor> < - 1022"
  proof (rule ccontr)
    assume "\<not> \<lfloor>log 2 x\<rfloor> < - 1022"
    then have "(2::real) powi (- 1022) \<le> 2 powi \<lfloor>log 2 x\<rfloor>" by (intro pow2_mono) simp
    with floor_log2[OF assms(1)] assms(2) show False by linarith
  qed
  then show ?thesis using assms(1) by (simp add: exponent_def)
qed

lemma exponent_mono:
  assumes "0 < x" "x \<le> y"
  shows "exponent x \<le> exponent y"
proof -
  have "log 2 x \<le> log 2 y" using assms by simp
  then have "\<lfloor>log 2 x\<rfloor> \<le> \<lfloor>log 2 y\<rfloor>" by (rule floor_mono)
  then show ?thesis using assms by (simp add: exponent_def)
qed

subsection \<open>The nearest double\<close>

lemma ulp_pos [simp]: "0 < ulp x"
  by (simp add: ulp_def)

lemma ulp_nonneg [simp]: "0 \<le> ulp x"
  by (simp add: ulp_def)

lemma ulp_times: "2 ^ 52 * ulp x = 2 powi (exponent x)" "2 ^ 53 * ulp x = 2 powi (exponent x + 1)"
proof -
  have "(2::real) powi (exponent x) = 2 powi (52 + (exponent x - 52))" by simp
  also have "\<dots> = 2 powi 52 * 2 powi (exponent x - 52)" by (subst power_int_add) simp_all
  finally show "2 ^ 52 * ulp x = 2 powi (exponent x)" by (simp add: ulp_def)
  have "(2::real) powi (exponent x + 1) = 2 powi (53 + (exponent x - 52))" by (simp add: add.commute)
  also have "\<dots> = 2 powi 53 * 2 powi (exponent x - 52)" by (subst power_int_add) simp_all
  finally show "2 ^ 53 * ulp x = 2 powi (exponent x + 1)" by (simp add: ulp_def)
qed

text \<open>The nearest double of a positive number lies in the closed range of the doubles
  of its exponent, and it is monotone.\<close>

lemma nearest_nonneg: "0 \<le> x \<Longrightarrow> 0 \<le> nearest x"
proof -
  assume "0 \<le> x"
  then have "0 \<le> x / ulp x" by (intro divide_nonneg_pos) simp_all
  then have "round_half_even 0 \<le> round_half_even (x / ulp x)" by (rule round_half_even_mono)
  then have "0 \<le> round_half_even (x / ulp x)" using round_half_even_of_int[of 0] by simp
  then show ?thesis by (simp add: nearest_def)
qed

lemma nearest_upper:
  assumes "0 < x"
  shows "nearest x \<le> 2 powi (exponent x + 1)"
proof -
  have "x / ulp x \<le> 2 ^ 53"
    using exponent_upper[OF assms] ulp_times(2)[of x] by (simp add: field_simps)
  then have "round_half_even (x / ulp x) \<le> round_half_even (2 ^ 53)" by (rule round_half_even_mono)
  moreover have "round_half_even (2 ^ 53) = 2 ^ 53" using round_half_even_of_int[of "2 ^ 53"] by simp
  ultimately have "real_of_int (round_half_even (x / ulp x)) \<le> 2 ^ 53"
    by (metis of_int_le_iff of_int_numeral of_int_power)
  then have "nearest x \<le> 2 ^ 53 * ulp x" by (simp add: nearest_def)
  then show ?thesis by (simp only: ulp_times)
qed

lemma nearest_lower:
  assumes "0 < x" and "- 1022 < exponent x"
  shows "2 powi (exponent x) \<le> nearest x"
proof -
  have "2 ^ 52 \<le> x / ulp x"
    using exponent_lower[OF assms] ulp_times(1)[of x] by (simp add: field_simps)
  then have "round_half_even (2 ^ 52) \<le> round_half_even (x / ulp x)" by (rule round_half_even_mono)
  moreover have "round_half_even (2 ^ 52) = 2 ^ 52" using round_half_even_of_int[of "2 ^ 52"] by simp
  ultimately have "2 ^ 52 \<le> real_of_int (round_half_even (x / ulp x))"
    by (metis of_int_le_iff of_int_numeral of_int_power)
  then have "2 ^ 52 * ulp x \<le> nearest x" by (simp add: nearest_def)
  then show ?thesis by (simp only: ulp_times)
qed

lemma nearest_mono:
  assumes "0 < x" "x \<le> y"
  shows "nearest x \<le> nearest y"
proof (cases "exponent x = exponent y")
  case True
  then have u: "ulp x = ulp y" by (simp add: ulp_def)
  have "x / ulp y \<le> y / ulp y" using assms(2) by (intro divide_right_mono) simp_all
  then have "round_half_even (x / ulp y) \<le> round_half_even (y / ulp y)" by (rule round_half_even_mono)
  then show ?thesis by (simp add: nearest_def u)
next
  case False
  with exponent_mono[OF assms] have lt: "exponent x + 1 \<le> exponent y" by simp
  have y: "0 < y" using assms by simp
  have "- 1022 < exponent y" using lt exponent_ge[of x] by simp
  from nearest_lower[OF y this] have "2 powi (exponent y) \<le> nearest y" .
  moreover have "(2::real) powi (exponent x + 1) \<le> 2 powi (exponent y)" using lt by (rule pow2_mono)
  moreover note nearest_upper[OF assms(1)]
  ultimately show ?thesis by linarith
qed

subsection \<open>Rounding is monotone and keeps doubles\<close>

lemma fl_nearest:
  "x \<noteq> 0 \<Longrightarrow> fl x = (if 2 ^ 1024 \<le> nearest x then Infinity
                       else if nearest x \<le> - (2 ^ 1024) then NegInfinity else Fin (nearest x))"
  by (simp add: fl_def)

lemma fl_0 [simp]: "fl 0 = Fin 0"
  by (simp add: fl_def)

lemma fl_pos:
  "0 < x \<Longrightarrow> fl x = (if 2 ^ 1024 \<le> nearest x then Infinity else Fin (nearest x))"
  using nearest_nonneg[of x] by (simp add: fl_nearest)

text \<open>On numbers that are not negative, rounding yields such numbers, or
  \<^verbatim>\<open>Infinity\<close>, and it is monotone.\<close>

lemma fl_nonneg:
  assumes "0 \<le> x"
  shows "fl x = Infinity \<or> (\<exists>y. fl x = Fin y \<and> 0 \<le> y)"
proof (cases "x = 0")
  case True
  then show ?thesis by simp
next
  case False
  with assms have "0 < x" by simp
  then show ?thesis using nearest_nonneg[OF assms] by (simp add: fl_pos)
qed

lemma fl_mono:
  assumes "0 \<le> x" "x \<le> y"
  shows "\<not> js_lt (fl y) (fl x)"
proof (cases "x = 0")
  case True
  have "0 \<le> y" using assms by simp
  from fl_nonneg[OF this] show ?thesis using True by auto
next
  case False
  with assms have x: "0 < x" and y: "0 < y" by simp_all
  from nearest_mono[OF x assms(2)] show ?thesis
    by (simp add: fl_pos x y)
qed

text \<open>Rounding is symmetric.\<close>

lemma round_half_even_minus: "round_half_even (- q) = - round_half_even q"
proof (cases "q = of_int \<lfloor>q\<rfloor>")
  case True
  then obtain n where "q = of_int n" ..
  then have "round_half_even (- q) = round_half_even (of_int (- n))" "round_half_even q = round_half_even (of_int n)" by simp_all
  then show ?thesis by (simp only: round_half_even_of_int)
next
  case False
  then have lt: "of_int \<lfloor>q\<rfloor> < q" using of_int_floor_le[of q] by linarith
  have up: "q < of_int \<lfloor>q\<rfloor> + 1" by linarith
  have f: "\<lfloor>- q\<rfloor> = - \<lfloor>q\<rfloor> - 1"
  proof (rule floor_unique)
    show "of_int (- \<lfloor>q\<rfloor> - 1) \<le> - q"
      unfolding of_int_diff of_int_minus of_int_1 by linarith
    show "- q < of_int (- \<lfloor>q\<rfloor> - 1) + 1"
      unfolding of_int_diff of_int_minus of_int_1 using lt by linarith
  qed
  show ?thesis
    unfolding round_half_even_def Let_def f using lt by auto
qed

lemma exponent_minus [simp]: "exponent (- x) = exponent x"
  by (simp add: exponent_def)

lemma ulp_minus [simp]: "ulp (- x) = ulp x"
  by (simp add: ulp_def)

lemma nearest_minus: "nearest (- x) = - nearest x"
  by (simp add: nearest_def round_half_even_minus)

lemma fl_minus: "fl (- x) = js_neg (fl x)"
proof (cases "x = 0")
  case True
  then show ?thesis by simp
next
  case False
  show ?thesis
  proof (cases "0 < x")
    case True
    then show ?thesis using nearest_nonneg[of x] by (simp add: fl_nearest nearest_minus)
  next
    case neg: False
    with False have "0 < - x" by simp
    from nearest_nonneg[of "- x"] this have "nearest x \<le> 0" by (simp add: nearest_minus)
    then show ?thesis using False by (simp add: fl_nearest nearest_minus)
  qed
qed

text \<open>Doubles are fixed points of the rounding.\<close>

lemma nearest_exact_pos:
  assumes "0 < n" "n < 2 ^ 53" "- 1074 \<le> k"
  shows "nearest (of_int n * 2 powi k) = of_int n * 2 powi k"
proof -
  let ?y = "real_of_int n * 2 powi k"
  have pos: "0 < ?y" using assms(1) by simp
  have "real_of_int n < 2 ^ 53" using assms(2)
    by (metis of_int_less_iff of_int_numeral of_int_power)
  then have "?y < 2 ^ 53 * 2 powi k" by simp
  also have "\<dots> = 2 powi (k + 53)"
    by (simp add: power_int_add)
  finally have up: "?y < 2 powi (k + 53)" .
  have le: "exponent ?y - 52 \<le> k"
  proof (rule ccontr)
    assume "\<not> exponent ?y - 52 \<le> k"
    then have g: "k + 53 \<le> exponent ?y" by simp
    with assms(3) have "- 1022 < exponent ?y" by simp
    from exponent_lower[OF pos this] have "2 powi (exponent ?y) \<le> ?y" .
    moreover have "(2::real) powi (k + 53) \<le> 2 powi (exponent ?y)" using g by (rule pow2_mono)
    ultimately show False using up by linarith
  qed
  define j where "j = nat (k - (exponent ?y - 52))"
  define u where "u = ulp ?y"
  have u: "0 < u" by (simp add: u_def)
  have k: "k = (exponent ?y - 52) + int j" using le by (simp add: j_def)
  have "(2::real) powi k = 2 powi (exponent ?y - 52) * 2 powi (int j)"
    by (subst k, subst power_int_add) simp_all
  then have p: "(2::real) powi k = 2 ^ j * u" by (simp add: u_def ulp_def mult.commute)
  have "?y / u = of_int (n * 2 ^ j)" unfolding p using u by simp
  then have "round_half_even (?y / u) = n * 2 ^ j" by (simp only: round_half_even_of_int)
  then have "nearest ?y = of_int (n * 2 ^ j) * u" by (simp add: nearest_def u_def)
  also have "\<dots> = real_of_int n * (2 ^ j * u)" by simp
  finally show ?thesis unfolding p .
qed

lemma fl_double:
  assumes "is_double y"
  shows "fl y = Fin y"
proof -
  from assms obtain n k where y: "y = of_int n * 2 powi k" and n: "\<bar>n\<bar> < 2 ^ 53"
    and k: "- 1074 \<le> k" "k \<le> 971"
    unfolding is_double_def by blast
  have bound: "real_of_int m * 2 powi k < 2 ^ 1024" if "0 < m" "m < 2 ^ 53" for m
  proof -
    have "real_of_int m < 2 ^ 53" using that(2)
      by (metis of_int_less_iff of_int_numeral of_int_power)
    then have "real_of_int m * 2 powi k < 2 ^ 53 * 2 powi k" by simp
    also have "\<dots> = 2 powi (k + 53)" by (simp add: power_int_add)
    also have "\<dots> \<le> 2 powi 1024" using k(2) by (intro pow2_mono) simp
    finally show ?thesis by simp
  qed
  have pos: "fl (real_of_int m * 2 powi k) = Fin (real_of_int m * 2 powi k)"
    if "0 < m" "m < 2 ^ 53" for m
    using nearest_exact_pos[OF that k(1)] bound[OF that] that(1) by (simp add: fl_pos)
  consider "n = 0" | "0 < n" | "n < 0" by linarith
  then show ?thesis
  proof cases
    case 1
    with y show ?thesis by simp
  next
    case 2
    with n have "n < 2 ^ 53" by simp
    from pos[OF 2 this] y show ?thesis by simp
  next
    case 3
    with n have m: "0 < - n" "- n < 2 ^ 53" by simp_all
    from pos[OF m] have "fl (- y) = Fin (- y)" using y by simp
    then show ?thesis using fl_minus[of y] by (cases "fl y") simp_all
  qed
qed

lemma round_half_even_ulp_upper:
  assumes "0 < x"
  shows "0 \<le> round_half_even (x / ulp x) \<and> round_half_even (x / ulp x) \<le> 2 ^ 53"
proof -
  have "0 \<le> x / ulp x" using assms by (intro divide_nonneg_pos) simp_all
  then have "round_half_even 0 \<le> round_half_even (x / ulp x)" by (rule round_half_even_mono)
  then have lo: "0 \<le> round_half_even (x / ulp x)" using round_half_even_of_int[of 0] by simp
  have "x / ulp x \<le> 2 ^ 53"
    using exponent_upper[OF assms] ulp_times(2)[of x] by (simp add: field_simps)
  then have "round_half_even (x / ulp x) \<le> round_half_even (2 ^ 53)" by (rule round_half_even_mono)
  moreover have "round_half_even (2 ^ 53) = 2 ^ 53" using round_half_even_of_int[of "2 ^ 53"] by simp
  ultimately show ?thesis using lo by simp
qed

lemma is_double_minus: "is_double y \<Longrightarrow> is_double (- y)"
proof -
  assume "is_double y"
  then obtain n k where "y = of_int n * 2 powi k" "\<bar>n\<bar> < 2 ^ 53" "- 1074 \<le> k" "k \<le> 971"
    unfolding is_double_def by blast
  then have "- y = of_int (- n) * 2 powi k \<and> \<bar>- n\<bar> < 2 ^ 53 \<and> - 1074 \<le> k \<and> k \<le> 971"
    by simp
  then show ?thesis unfolding is_double_def by blast
qed

lemma pow2_1024: "(2::real) powi 1024 = 2 ^ 1024"
  by simp

lemma nearest_double:
  assumes "0 < x" and "nearest x < 2 ^ 1024"
  shows "is_double (nearest x)"
proof -
  let ?m = "round_half_even (x / ulp x)"
  let ?e = "exponent x"
  have e: "?e \<le> 1023"
  proof (rule ccontr)
    assume "\<not> ?e \<le> 1023"
    then have g: "1024 \<le> ?e" by simp
    then have "- 1022 < ?e" by simp
    from nearest_lower[OF assms(1) this] have "2 powi ?e \<le> nearest x" .
    moreover have "(2::real) powi 1024 \<le> 2 powi ?e" using g by (rule pow2_mono)
    ultimately show False using assms(2) unfolding pow2_1024 by linarith
  qed
  from round_half_even_ulp_upper[OF assms(1)] have m: "0 \<le> ?m" "?m \<le> 2 ^ 53" by simp_all
  show ?thesis
  proof (cases "?m = 2 ^ 53")
    case False
    with m have "\<bar>?m\<bar> < 2 ^ 53" by linarith
    moreover have "nearest x = of_int ?m * 2 powi (?e - 52)" by (simp only: nearest_def ulp_def)
    moreover have "- 1074 \<le> ?e - 52" "?e - 52 \<le> 971" using e exponent_ge[of x] by linarith+
    ultimately show ?thesis unfolding is_double_def by blast
  next
    case True
    then have "nearest x = 2 ^ 53 * ulp x" by (simp add: nearest_def)
    then have r: "nearest x = 2 powi (?e + 1)" by (simp only: ulp_times)
    have e1: "?e + 1 < 1024"
    proof (rule ccontr)
      assume "\<not> ?e + 1 < 1024"
      then have "1024 \<le> ?e + 1" by simp
      then have "(2::real) powi 1024 \<le> 2 powi (?e + 1)" by (rule pow2_mono)
      with r assms(2) show False unfolding pow2_1024 by linarith
    qed
    have "?e + 1 = 52 + (?e - 51)" by simp
    then have "(2::real) powi (?e + 1) = 2 powi 52 * 2 powi (?e - 51)"
      by (simp only: pow2_add)
    then have "nearest x = of_int (2 ^ 52) * 2 powi (?e - 51)"
      unfolding r by simp
    moreover have "\<bar>(2::int) ^ 52\<bar> < 2 ^ 53" by simp
    moreover have "- 1074 \<le> ?e - 51" using exponent_ge[of x] by linarith
    moreover have "?e - 51 \<le> 971" using e1 by linarith
    ultimately show ?thesis unfolding is_double_def by blast
  qed
qed

text \<open>Every finite result of the rounding is a double, and rounding it again changes
  nothing.\<close>

lemma fl_range:
  assumes "fl x = Fin y"
  shows "is_double y"
proof -
  have pos: "is_double z" if "0 < t" "fl t = Fin z" for t z
  proof -
    from that have "z = nearest t" "nearest t < 2 ^ 1024" by (auto simp: fl_pos split: if_splits)
    with nearest_double[OF that(1)] show ?thesis by simp
  qed
  consider "x = 0" | "0 < x" | "x < 0" by linarith
  then show ?thesis
  proof cases
    case 1
    with assms have "y = of_int 0 * 2 powi 0" by simp
    then show ?thesis unfolding is_double_def by (intro exI[of _ 0]) simp
  next
    case 2
    then show ?thesis using assms by (rule pos)
  next
    case 3
    then have "0 < - x" by simp
    moreover have "fl (- x) = Fin (- y)" using assms by (simp add: fl_minus)
    ultimately have "is_double (- y)" by (rule pos)
    from is_double_minus[OF this] show ?thesis by simp
  qed
qed

lemma fl_idem: "fl x = Fin y \<Longrightarrow> fl y = Fin y"
  by (rule fl_double) (rule fl_range)

subsection \<open>The rounded value is a nearest double\<close>

lemma round_half_even_closest: "\<bar>q - of_int (round_half_even q)\<bar> \<le> \<bar>q - of_int j\<bar>"
proof -
  let ?n = "\<lfloor>q\<rfloor>"
  have b: "of_int ?n \<le> q" "q < of_int ?n + 1" by linarith+
  have j: "j \<le> ?n \<or> ?n + 1 \<le> j" by linarith
  have j': "real_of_int j \<le> of_int ?n \<or> of_int ?n + 1 \<le> real_of_int j"
  proof (cases "j \<le> ?n")
    case True
    then have "real_of_int j \<le> of_int ?n" by (simp only: of_int_le_iff)
    then show ?thesis ..
  next
    case False
    with j have "?n + 1 \<le> j" by simp
    then have "real_of_int (?n + 1) \<le> of_int j" by (simp only: of_int_le_iff)
    then show ?thesis by simp
  qed
  have "round_half_even q = ?n \<and> q - of_int ?n \<le> 1 / 2 \<or>
        round_half_even q = ?n + 1 \<and> 1 / 2 \<le> q - of_int ?n"
  proof (cases "q - of_int ?n < 1 / 2")
    case True
    then show ?thesis by (simp add: round_half_even_def Let_def)
  next
    case False
    then show ?thesis
      by (cases "1 / 2 < q - of_int ?n") (simp_all add: round_half_even_def Let_def)
  qed
  then consider "round_half_even q = ?n" "q - of_int ?n \<le> 1 / 2"
    | "round_half_even q = ?n + 1" "1 / 2 \<le> q - of_int ?n"
    by blast
  then show ?thesis
  proof cases
    case 1
    then show ?thesis using b j' by (simp only: 1(1)) linarith
  next
    case 2
    have "real_of_int (?n + 1) = of_int ?n + 1" by simp
    then show ?thesis using 2(2) b j' by (simp only: 2(1)) linarith
  qed
qed

lemma ulp_neq_0 [simp]: "ulp x \<noteq> 0"
  by (simp add: ulp_def)

lemma abs_diff_scaled:
  fixes x u c :: real
  assumes "0 < u"
  shows "\<bar>x - c * u\<bar> = \<bar>x / u - c\<bar> * u"
proof -
  have "x - c * u = (x / u - c) * u" using assms by (simp add: left_diff_distrib)
  then have "\<bar>x - c * u\<bar> = \<bar>x / u - c\<bar> * \<bar>u\<bar>" by (simp only: abs_mult)
  then show ?thesis using assms by simp
qed

lemma nearest_closest_pos:
  assumes x: "0 < x" and d: "is_double d"
  shows "\<bar>x - nearest x\<bar> \<le> \<bar>x - d\<bar>"
proof -
  let ?e = "exponent x"
  let ?u = "ulp x"
  let ?q = "x / ?u"
  let ?n = "\<lfloor>?q\<rfloor>"
  have u: "0 < ?u" by simp
  have near: "\<bar>x - nearest x\<bar> = \<bar>?q - of_int (round_half_even ?q)\<bar> * ?u"
    unfolding nearest_def using u by (rule abs_diff_scaled)
  from d obtain m k where m: "d = of_int m * 2 powi k" "\<bar>m\<bar> < 2 ^ 53"
    "- 1074 \<le> k" "k \<le> 971"
    unfolding is_double_def by blast
  show ?thesis
  proof (cases "?e - 52 \<le> k")
    case True
    define j where "j = nat (k - (?e - 52))"
    have k: "k = (?e - 52) + int j" using True by (simp add: j_def)
    have "(2::real) powi k = 2 powi (?e - 52) * 2 powi (int j)"
      by (subst k) (rule pow2_add)
    then have "d = of_int (m * 2 ^ j) * ?u" by (simp add: m(1) ulp_def mult.commute)
    then have "\<bar>x - d\<bar> = \<bar>?q - of_int (m * 2 ^ j)\<bar> * ?u"
      using abs_diff_scaled[OF u, of x "of_int (m * 2 ^ j)"] by (simp only:)
    moreover have "\<bar>?q - of_int (round_half_even ?q)\<bar> \<le> \<bar>?q - of_int (m * 2 ^ j)\<bar>"
      by (rule round_half_even_closest)
    ultimately show ?thesis unfolding near using u by (simp add: mult_right_mono)
  next
    case False
    then have k: "k + 53 \<le> ?e" by simp
    with m(3) have e: "- 1022 < ?e" by simp
    have "real_of_int m \<le> \<bar>real_of_int m\<bar>" by simp
    also have "\<dots> < 2 ^ 53" using m(2) by (metis of_int_abs of_int_less_iff of_int_numeral of_int_power)
    finally have "real_of_int m * 2 powi k < 2 ^ 53 * 2 powi k" by simp
    also have "\<dots> = 2 powi (k + 53)" by (simp add: pow2_add)
    also have "\<dots> \<le> 2 powi ?e" using k by (rule pow2_mono)
    finally have dlt: "d < 2 powi ?e" by (simp add: m(1))
    have "2 ^ 52 \<le> ?q"
      using exponent_lower[OF x e] ulp_times(1)[of x] by (simp add: field_simps)
    then have "(2::int) ^ 52 \<le> ?n" by (simp add: le_floor_iff)
    then have "2 ^ 52 \<le> real_of_int ?n" by (metis of_int_le_iff of_int_numeral of_int_power)
    then have "2 ^ 52 * ?u \<le> of_int ?n * ?u" using u by (simp add: mult_right_mono)
    then have lo: "2 powi ?e \<le> of_int ?n * ?u" by (simp only: ulp_times)
    have "of_int ?n \<le> ?q" by linarith
    then have "of_int ?n * ?u \<le> ?q * ?u" by (rule mult_right_mono) simp
    moreover have "?q * ?u = x" by (simp add: ulp_def)
    ultimately have nx: "of_int ?n * ?u \<le> x" by simp
    have "\<bar>?q - of_int (round_half_even ?q)\<bar> \<le> \<bar>?q - of_int ?n\<bar>"
      by (rule round_half_even_closest)
    then have "\<bar>x - nearest x\<bar> \<le> \<bar>?q - of_int ?n\<bar> * ?u"
      unfolding near using u by (simp add: mult_right_mono)
    also have "\<dots> = x - of_int ?n * ?u"
    proof -
      have "0 \<le> ?q - of_int ?n" by linarith
      then have "\<bar>?q - of_int ?n\<bar> * ?u = (?q - of_int ?n) * ?u" by simp
      also have "\<dots> = x - of_int ?n * ?u" by (simp add: left_diff_distrib)
      finally show ?thesis .
    qed
    also have "\<dots> \<le> x - d" using lo dlt by linarith
    also have "\<dots> \<le> \<bar>x - d\<bar>" by simp
    finally show ?thesis .
  qed
qed

text \<open>No double is nearer to \<open>x\<close> than \<open>nearest x\<close>, which is itself a double unless
  it is beyond their range (\<open>nearest_double\<close>); in a tie the multiple with the even
  mantissa is taken.\<close>

lemma nearest_closest:
  assumes "is_double d"
  shows "\<bar>x - nearest x\<bar> \<le> \<bar>x - d\<bar>"
proof -
  consider "x = 0" | "0 < x" | "x < 0" by linarith
  then show ?thesis
  proof cases
    case 1
    then show ?thesis using round_half_even_of_int[of 0] by (simp add: nearest_def)
  next
    case 2
    then show ?thesis using assms by (rule nearest_closest_pos)
  next
    case 3
    then have "0 < - x" by simp
    from nearest_closest_pos[OF this is_double_minus[OF assms]]
    have "\<bar>- x - nearest (- x)\<bar> \<le> \<bar>- x - - d\<bar>" .
    moreover have "- x - nearest (- x) = - (x - nearest x)" by (simp add: nearest_minus)
    moreover have "- x - - d = - (x - d)" by simp
    ultimately show ?thesis by (simp only: abs_minus)
  qed
qed

subsection \<open>Evaluating the rounding\<close>

lemma is_doubleI:
  "y = of_int n * 2 powi k \<Longrightarrow> \<bar>n\<bar> < 2 ^ 53 \<Longrightarrow> - 1074 \<le> k \<Longrightarrow> k \<le> 971 \<Longrightarrow> is_double y"
  unfolding is_double_def by blast

lemma is_double_int:
  assumes "\<bar>n\<bar> \<le> 2 ^ 53"
  shows "is_double (of_int n)"
proof (cases "\<bar>n\<bar> = 2 ^ 53")
  case False
  with assms have lt: "\<bar>n\<bar> < 2 ^ 53" by linarith
  have "real_of_int n = of_int n * 2 powi 0" by simp
  then show ?thesis using lt by (rule is_doubleI) simp_all
next
  case True
  have a: "\<bar>(2::int) ^ 52\<bar> < 2 ^ 53" "\<bar>- ((2::int) ^ 52)\<bar> < 2 ^ 53" by simp_all
  from True have "n = 2 ^ 53 \<or> n = - (2 ^ 53)" by (simp add: abs_if split: if_splits)
  then show ?thesis
  proof
    assume "n = 2 ^ 53"
    then have "real_of_int n = of_int (2 ^ 52) * 2 powi 1" by simp
    then show ?thesis using a(1) by (rule is_doubleI) simp_all
  next
    assume "n = - (2 ^ 53)"
    then have "real_of_int n = of_int (- (2 ^ 52)) * 2 powi 1" by simp
    then show ?thesis using a(2) by (rule is_doubleI) simp_all
  qed
qed

lemma fl_of_int: "\<bar>n\<bar> \<le> 2 ^ 53 \<Longrightarrow> fl (of_int n) = Fin (of_int n)"
  by (rule fl_double) (rule is_double_int)

lemma fl_numeral [simp]: "numeral w \<le> (2::int) ^ 53 \<Longrightarrow> fl (numeral w) = Fin (numeral w)"
  using fl_of_int[of "numeral w"] by simp

lemma fl_1 [simp]: "fl 1 = Fin 1"
  using fl_of_int[of 1] by simp

text \<open>The rounding of a number whose exponent is known; a number from \<^verbatim>\<open>2^1024\<close> on
  rounds to \<^verbatim>\<open>Infinity\<close>.\<close>

lemma fl_pos_Fin: "0 < x \<Longrightarrow> nearest x < 2 ^ 1024 \<Longrightarrow> fl x = Fin (nearest x)"
  by (simp add: fl_pos)

lemma fl_pos_Infinity: "0 < x \<Longrightarrow> 2 ^ 1024 \<le> nearest x \<Longrightarrow> fl x = Infinity"
  by (simp add: fl_pos)

lemma fl_round:
  assumes "0 < x" "2 powi e \<le> x" "x < 2 powi (e + 1)" "- 1022 \<le> e" "e \<le> 1022"
  shows "fl x = Fin (of_int (round_half_even (x / 2 powi (e - 52))) * 2 powi (e - 52))"
proof -
  have e: "exponent x = e" using assms(1-4) by (rule exponent_eq)
  have "e + 1 \<le> 1023" using assms(5) by simp
  then have "(2::real) powi (e + 1) \<le> 2 powi 1023" by (rule pow2_mono)
  moreover have "(2::real) powi 1023 < 2 powi 1024" by (rule power_int_strict_increasing) simp_all
  moreover have "nearest x \<le> 2 powi (e + 1)" using nearest_upper[OF assms(1)] e by simp
  ultimately have "nearest x < 2 ^ 1024" unfolding pow2_1024 by linarith
  with assms(1) have "fl x = Fin (nearest x)" by (rule fl_pos_Fin)
  then show ?thesis by (simp only: nearest_def ulp_def e)
qed

lemma fl_overflow:
  assumes "2 ^ 1024 \<le> x"
  shows "fl x = Infinity"
proof -
  have p: "(0::real) < 2 ^ 1024" by (rule zero_less_power) simp
  with assms have x: "0 < x" by linarith
  have "exponent (2 powi 1024) = 1024" by (rule exponent_eq) (simp_all only: pow2_pos pow2_mono, simp_all)
  then have "exponent (2 ^ 1024) = 1024" by (simp only: pow2_1024)
  moreover have "exponent (2 ^ 1024) \<le> exponent x" using p assms by (rule exponent_mono)
  ultimately have e: "1024 \<le> exponent x" by simp
  then have "- 1022 < exponent x" by simp
  from nearest_lower[OF x this] have "2 powi (exponent x) \<le> nearest x" .
  moreover have "(2::real) powi 1024 \<le> 2 powi (exponent x)" using e by (rule pow2_mono)
  ultimately have "2 ^ 1024 \<le> nearest x" unfolding pow2_1024 by linarith
  with x show ?thesis by (rule fl_pos_Infinity)
qed

subsection \<open>The numbers of the examples\<close>

lemma dbl_0_2: "dbl 0.2 = 3602879701896397 / 2 ^ 54"
proof -
  have "fl 0.2 = Fin (of_int (round_half_even (0.2 / 2 powi (- 3 - 52))) * 2 powi (- 3 - 52))"
    by (rule fl_round) simp_all
  moreover have "round_half_even (0.2 / 2 powi (- 3 - 52)) = 7205759403792794"
    by (simp add: round_half_even_def Let_def)
  ultimately show ?thesis by (simp add: dbl_def)
qed

lemma dbl_0_1: "dbl 0.1 = 3602879701896397 / 2 ^ 55"
proof -
  have "fl 0.1 = Fin (of_int (round_half_even (0.1 / 2 powi (- 4 - 52))) * 2 powi (- 4 - 52))"
    by (rule fl_round) simp_all
  moreover have "round_half_even (0.1 / 2 powi (- 4 - 52)) = 7205759403792794"
    by (simp add: round_half_even_def Let_def)
  ultimately show ?thesis by (simp add: dbl_def)
qed

text \<open>\<^verbatim>\<open>1 + 0.2\<close> is the double \<^verbatim>\<open>1.2\<close>, and \<^verbatim>\<open>10 * 1.2\<close> is 12.\<close>

lemma weight_10_default: "js_mul (Fin 10) (js_add (Fin 1) (Fin (dbl 0.2))) = Fin 12"
proof -
  let ?x = "1 + 3602879701896397 / 2 ^ 54 :: real"
  have "fl ?x = Fin (of_int (round_half_even (?x / 2 powi (0 - 52))) * 2 powi (0 - 52))"
    by (rule fl_round) simp_all
  moreover have "round_half_even (?x / 2 powi (0 - 52)) = 5404319552844595"
    by (simp add: round_half_even_def Let_def)
  ultimately have a: "fl ?x = Fin (5404319552844595 / 2 ^ 52)" by simp
  let ?y = "10 * (5404319552844595 / 2 ^ 52) :: real"
  have "fl ?y = Fin (of_int (round_half_even (?y / 2 powi (3 - 52))) * 2 powi (3 - 52))"
    by (rule fl_round) simp_all
  moreover have "round_half_even (?y / 2 powi (3 - 52)) = 6755399441055744"
    by (simp add: round_half_even_def Let_def)
  ultimately have b: "fl ?y = Fin 12" by simp
  show ?thesis unfolding dbl_0_2 js_add.simps a js_mul.simps b ..
qed

text \<open>\<^verbatim>\<open>1 + 0.1\<close> is the double \<^verbatim>\<open>1.1\<close>, and \<^verbatim>\<open>10 * 1.1\<close> lies halfway between 11
  and the next double: it is rounded to 11.\<close>

lemma weight_10_tenth: "js_mul (Fin 10) (js_add (Fin 1) (Fin (dbl 0.1))) = Fin 11"
proof -
  let ?x = "1 + 3602879701896397 / 2 ^ 55 :: real"
  have "fl ?x = Fin (of_int (round_half_even (?x / 2 powi (0 - 52))) * 2 powi (0 - 52))"
    by (rule fl_round) simp_all
  moreover have "round_half_even (?x / 2 powi (0 - 52)) = 4953959590107546"
    by (simp add: round_half_even_def Let_def)
  ultimately have a: "fl ?x = Fin (4953959590107546 / 2 ^ 52)" by simp
  let ?y = "10 * (4953959590107546 / 2 ^ 52) :: real"
  have "fl ?y = Fin (of_int (round_half_even (?y / 2 powi (3 - 52))) * 2 powi (3 - 52))"
    by (rule fl_round) simp_all
  moreover have "round_half_even (?y / 2 powi (3 - 52)) = 6192449487634432"
    by (simp add: round_half_even_def Let_def)
  ultimately have b: "fl ?y = Fin 11" by simp
  show ?thesis unfolding dbl_0_1 js_add.simps a js_mul.simps b ..
qed

lemma weight_10_half: "js_mul (Fin 10) (js_add (Fin 1) (Fin 0.5)) = Fin 15"
proof -
  have "(3 / 2 :: real) = of_int 3 * 2 powi (- 1)" by simp
  then have "is_double (3 / 2)" by (rule is_doubleI) simp_all
  then have "fl (3 / 2) = Fin (3 / 2)" by (rule fl_double)
  then show ?thesis by simp
qed

lemma fl_huge: "fl huge = Fin huge" "fl (huge + huge) = Infinity"
proof -
  have "(2::real) ^ 1023 = 2 ^ 52 * 2 ^ 971" by (simp add: power_add[symmetric])
  then have "huge = of_int (2 ^ 52) * 2 powi 971" by (simp add: huge_def)
  then have "is_double huge" by (rule is_doubleI) simp_all
  then show "fl huge = Fin huge" by (rule fl_double)
  have "huge + huge = 2 ^ 1024" by (simp add: huge_def)
  then show "fl (huge + huge) = Infinity" by (simp add: fl_overflow)
qed

section \<open>Properties of \<^verbatim>\<open>initEdgeWeights\<close>\<close>

lemma flowRate_json_edge: "flowRate (json_edge e) p = flowRate e p"
  by (simp add: flowRate_def json_edge_def)

lemma new_weight_json_edge: "new_weight (json_edge e) r = new_weight e r"
  by (simp add: new_weight_def json_edge_def split: flow_value.splits)

lemma json_edge_overwritten: "(json_edge e)\<lparr>weight := w\<rparr> = e\<lparr>weight := w\<rparr>"
  by (simp add: json_edge_def)

lemma setWeights_json: "setWeights p (map json_edge es) = setWeights p es"
  by (induction es)
     (simp_all add: flowRate_json_edge new_weight_json_edge json_edge_overwritten
        split: sum.splits)

text \<open>The copy differs from the input in weights at most, and every weight of the copy
  is overwritten.\<close>

lemma initEdgeWeights_values:
  "initEdgeWeights g p =
     (case setWeights p (edges g) of Inl err \<Rightarrow> Inl err | Inr es \<Rightarrow> Inr (g\<lparr>edges := es\<rparr>))"
  by (simp add: initEdgeWeights_def json_graph_def setWeights_json split: sum.splits)

lemma new_weight_flowRate:
  assumes "flow e = Some f"
  shows "\<exists>r. flowRate e p = Inr r \<and> new_weight e r = written_weight (distance e) (f p) p"
  using assms
  by (auto simp: flowRate_def new_weight_def written_weight_def split: option.splits)

lemma setWeights_total:
  assumes "\<forall>e\<in>set es. flow e \<noteq> None"
  shows "\<exists>es'. setWeights p es = Inr es'"
  using assms
proof (induction es)
  case Nil
  then show ?case by simp
next
  case (Cons e es)
  then obtain es' where es': "setWeights p es = Inr es'" by auto
  from Cons.prems obtain f where "flow e = Some f" by auto
  from new_weight_flowRate[OF this, of p] obtain r where "flowRate e p = Inr r" by blast
  with es' show ?case by simp
qed

lemma setWeights_nth:
  "setWeights p es = Inr es' \<Longrightarrow>
   length es' = length es \<and>
   (\<forall>i<length es. \<exists>f. flow (es ! i) = Some f \<and>
      es' ! i = (es ! i)\<lparr>weight := Some (Num (written_weight (distance (es ! i)) (f p) p))\<rparr>)"
proof (induction es arbitrary: es')
  case Nil
  then show ?case by simp
next
  case (Cons e es)
  from Cons.prems obtain f where f: "flow e = Some f"
    by (cases "flow e") (auto simp: flowRate_def)
  from new_weight_flowRate[OF f, of p] obtain r where r: "flowRate e p = Inr r"
    "new_weight e r = written_weight (distance e) (f p) p" by blast
  from Cons.prems r obtain es0 where es0: "setWeights p es = Inr es0"
    and es': "es' = e\<lparr>weight := Some (Num (written_weight (distance e) (f p) p))\<rparr> # es0"
    by (auto split: sum.splits)
  from Cons.IH[OF es0] have len: "length es0 = length es"
    and nth: "\<forall>i<length es. \<exists>f. flow (es ! i) = Some f \<and>
      es0 ! i = (es ! i)\<lparr>weight := Some (Num (written_weight (distance (es ! i)) (f p) p))\<rparr>"
    by simp_all
  have "\<exists>f'. flow ((e # es) ! i) = Some f' \<and>
      es' ! i = ((e # es) ! i)\<lparr>weight :=
        Some (Num (written_weight (distance ((e # es) ! i)) (f' p) p))\<rparr>"
    if "i < length (e # es)" for i
    using that f nth es' by (cases i) auto
  with len es' show ?case by simp
qed

text \<open>What \<^verbatim>\<open>initEdgeWeights\<close> writes, for every edge of every graph on which it
  returns: the distance times one plus the stored coefficient when that is not 0; the
  distance times one plus 0.2 when the stored coefficient is 0, or when the period is
  missing and is not the name of an inherited member; \<^verbatim>\<open>NaN\<close> when it is such a name.\<close>

lemma initEdgeWeights_weights:
  assumes "initEdgeWeights g p = Inr g'" and "i < length (edges g)"
  shows "\<exists>f. flow (edges g ! i) = Some f \<and>
           weight (edges g' ! i) =
             Some (Num (case f p of
                          None \<Rightarrow> if inherited p then NaN
                                  else js_mul (Fin (distance (edges g ! i)))
                                         (js_add (Fin 1) (Fin (dbl 0.2)))
                        | Some c \<Rightarrow> js_mul (Fin (distance (edges g ! i)))
                                     (js_add (Fin 1) (Fin (if c = 0 then dbl 0.2 else c)))))"
proof -
  from assms(1) obtain es' where es': "setWeights p (edges g) = Inr es'" "g' = g\<lparr>edges := es'\<rparr>"
    by (auto simp: initEdgeWeights_values split: sum.splits)
  from setWeights_nth[OF es'(1)] assms(2) obtain f where
    "flow (edges g ! i) = Some f"
    "es' ! i = (edges g ! i)\<lparr>weight :=
       Some (Num (written_weight (distance (edges g ! i)) (f p) p))\<rparr>"
    by blast
  with es'(2) show ?thesis by (simp add: written_weight_def)
qed

text \<open>A period that names an inherited member, and that the flow mapping does not hold:
  the weight written is \<^verbatim>\<open>NaN\<close>.\<close>

lemma initEdgeWeights_inherited_label:
  "initEdgeWeights (one_edge_graph (Some [''morning'' \<mapsto> 0.5])) ''toString'' =
     Inr \<lparr>nodes = [mk_node 1, mk_node 2],
          edges = [mk_edge 1 2 10 (Some [''morning'' \<mapsto> 0.5]) (Some (Num NaN))]\<rparr>"
  by (simp add: initEdgeWeights_values flowRate_def new_weight_def inherited_def example_defs)

text \<open>The edge \<open>1 \<rightarrow> 2\<close> of distance 10 is weighted 12 when the coefficient stored for
  the period is 0, and 11 when it is 0.1 (the double that the literal denotes).\<close>

lemma weigh_zero_coefficient:
  "initEdgeWeights (one_edge_graph (Some [''morning'' \<mapsto> 0])) ''morning'' =
     Inr \<lparr>nodes = [mk_node 1, mk_node 2],
          edges = [mk_edge 1 2 10 (Some [''morning'' \<mapsto> 0]) (num 12)]\<rparr>"
proof -
  let ?e = "mk_edge 1 2 10 (Some [''morning'' \<mapsto> 0]) None"
  have "flowRate ?e ''morning'' = Inr (Coefficient (dbl 0.2))"
    by (simp add: flowRate_def mk_edge_def)
  moreover have "new_weight ?e (Coefficient (dbl 0.2)) = Fin 12"
    unfolding new_weight_def flow_value.case using weight_10_default by (simp add: mk_edge_def)
  ultimately show ?thesis
    by (simp add: initEdgeWeights_values one_edge_graph_def) (simp add: mk_edge_def)
qed

lemma weigh_tenth_coefficient:
  "initEdgeWeights (one_edge_graph (Some [''morning'' \<mapsto> dbl 0.1])) ''morning'' =
     Inr \<lparr>nodes = [mk_node 1, mk_node 2],
          edges = [mk_edge 1 2 10 (Some [''morning'' \<mapsto> dbl 0.1]) (num 11)]\<rparr>"
proof -
  let ?e = "mk_edge 1 2 10 (Some [''morning'' \<mapsto> dbl 0.1]) None"
  have "dbl 0.1 \<noteq> 0" unfolding dbl_0_1 by simp
  then have "flowRate ?e ''morning'' = Inr (Coefficient (dbl 0.1))"
    by (simp add: flowRate_def mk_edge_def)
  moreover have "new_weight ?e (Coefficient (dbl 0.1)) = Fin 11"
    unfolding new_weight_def flow_value.case using weight_10_tenth by (simp add: mk_edge_def)
  ultimately show ?thesis
    by (simp add: initEdgeWeights_values one_edge_graph_def) (simp add: mk_edge_def)
qed

text \<open>
  C2 (the code departs from the claim).  The edge \<open>1 \<rightarrow> 2\<close> has distance 10 and the
  coefficient 0 stored for \<^verbatim>\<open>morning\<close>: the period is present in the flow mapping, and
  the weight that \<^verbatim>\<open>initEdgeWeights\<close> writes is \<open>12 = 10 * (1 + 0.2)\<close>, not
  \<open>10 = 10 * (1 + 0)\<close>, because \<^verbatim>\<open>||\<close> treats the stored 0 as missing.
\<close>

theorem initEdgeWeights_zero_coefficient:
  "initEdgeWeights (one_edge_graph (Some [''morning'' \<mapsto> 0])) ''morning'' =
     Inr \<lparr>nodes = [mk_node 1, mk_node 2],
          edges = [mk_edge 1 2 10 (Some [''morning'' \<mapsto> 0]) (num 12)]\<rparr>"
  by (rule weigh_zero_coefficient)




section \<open>Basic facts: numbers, the initial tables, the selection of the minimum\<close>

lemma js_lt_irrefl: "\<not> js_lt a a"
  by (cases a) auto

lemma js_lt_trans: "js_lt a b \<Longrightarrow> js_lt b c \<Longrightarrow> js_lt a c"
  by (cases a; cases b; cases c) auto

lemma js_le_trans: "\<not> js_lt b a \<Longrightarrow> \<not> js_lt c b \<Longrightarrow> b \<noteq> NaN \<Longrightarrow> \<not> js_lt c a"
  by (cases a; cases b; cases c) auto

lemma js_lt_below: "js_lt a b \<Longrightarrow> js_lt a Infinity"
  by (cases a; cases b) auto

lemma js_lt_not_NaN: "js_lt a b \<Longrightarrow> a \<noteq> NaN \<and> b \<noteq> NaN"
  by (cases a; cases b) auto

lemma set_foldl_set_add: "set (foldl set_add acc xs) = set acc \<union> set xs"
  by (induction xs arbitrary: acc) (auto simp: set_add_def)

lemma set_new_Set: "set (new_Set xs) = set xs"
  by (simp add: new_Set_def set_foldl_set_add)

lemma distinct_foldl_set_add: "distinct acc \<Longrightarrow> distinct (foldl set_add acc xs)"
  by (induction xs arbitrary: acc) (auto simp: set_add_def)

lemma distinct_new_Set: "distinct (new_Set xs)"
  by (simp add: new_Set_def distinct_foldl_set_add)

lemma foldl_init_node:
  "foldl (init_node start) tbl ns =
     ((\<lambda>v. if v \<in> nid ` set ns then Some (if v = start then Fin 0 else Infinity) else fst tbl v),
      (\<lambda>v. if v \<in> nid ` set ns then Some None else snd tbl v))"
proof (induction ns arbitrary: tbl)
  case Nil
  then show ?case by simp
next
  case (Cons n ns)
  show ?case
    unfolding foldl_Cons Cons.IH
    by (auto simp: init_node_def fun_eq_iff)
qed

lemma dists_init_state:
  "dists (init_state start g) v =
     (if v \<in> node_ids g then Some (if v = start then Fin 0 else Infinity) else None)"
  by (simp add: init_state_def Let_def foldl_init_node node_ids_def)

lemma prevs_init_state:
  "prevs (init_state start g) v = (if v \<in> node_ids g then Some None else None)"
  by (simp add: init_state_def Let_def foldl_init_node node_ids_def)

lemma unvisited_init_state:
  "set (unvisited (init_state start g)) = node_ids g"
  by (simp add: init_state_def Let_def set_new_Set node_ids_def)

lemma min_step_simps:
  "min_step dst None i = Some i"
  "min_step dst (Some j) i = (if js_lt (to_num (dst i)) (to_num (dst j)) then Some i else Some j)"
  by (simp_all add: min_step_def)

lemma minNodeId_None: "minNodeId dst unv = None \<longleftrightarrow> unv = []"
proof -
  have "foldl (min_step dst) (Some j) xs \<noteq> None" for j xs
    by (induction xs arbitrary: j) (auto simp: min_step_simps)
  then show ?thesis
    by (cases unv) (auto simp: minNodeId_def min_step_simps)
qed

lemma js_lt_le_trans: "js_lt a b \<Longrightarrow> \<not> js_lt c b \<Longrightarrow> c \<noteq> NaN \<Longrightarrow> js_lt a c"
  by (cases a; cases b; cases c) auto

text \<open>The selected node splits the list: every earlier member is strictly larger, no
  later member is smaller.\<close>

lemma foldl_min_step_split:
  assumes "foldl (min_step dst) (Some j) xs = Some m"
    and "\<forall>x\<in>set xs. to_num (dst x) \<noteq> NaN"
  shows "\<exists>pre post. j # xs = pre @ m # post \<and>
            (\<forall>x\<in>set pre. js_lt (to_num (dst m)) (to_num (dst x))) \<and>
            (\<forall>x\<in>set post. \<not> js_lt (to_num (dst x)) (to_num (dst m)))"
  using assms
proof (induction xs arbitrary: j)
  case Nil
  then have "j # [] = [] @ m # []" by simp
  then show ?case by force
next
  case (Cons a xs)
  have nan: "\<forall>x\<in>set xs. to_num (dst x) \<noteq> NaN" and a: "to_num (dst a) \<noteq> NaN"
    using Cons.prems(2) by simp_all
  show ?case
  proof (cases "js_lt (to_num (dst a)) (to_num (dst j))")
    case True
    then have f: "foldl (min_step dst) (Some a) xs = Some m"
      using Cons.prems(1) by (simp add: min_step_simps)
    from Cons.IH[OF f nan] obtain pre post where
      eq: "a # xs = pre @ m # post"
      and pre: "\<forall>x\<in>set pre. js_lt (to_num (dst m)) (to_num (dst x))"
      and post: "\<forall>x\<in>set post. \<not> js_lt (to_num (dst x)) (to_num (dst m))"
      by blast
    have "js_lt (to_num (dst m)) (to_num (dst j))"
    proof (cases pre)
      case Nil
      with eq have "m = a" by simp
      with True show ?thesis by simp
    next
      case (Cons b pre')
      with eq have "a \<in> set pre" by simp
      with pre have "js_lt (to_num (dst m)) (to_num (dst a))" by blast
      then show ?thesis using True by (rule js_lt_trans)
    qed
    moreover have "j # a # xs = (j # pre) @ m # post" using eq by simp
    ultimately have "j # a # xs = (j # pre) @ m # post \<and>
        (\<forall>x\<in>set (j # pre). js_lt (to_num (dst m)) (to_num (dst x))) \<and>
        (\<forall>x\<in>set post. \<not> js_lt (to_num (dst x)) (to_num (dst m)))"
      using pre post by simp
    then show ?thesis by blast
  next
    case False
    then have f: "foldl (min_step dst) (Some j) xs = Some m"
      using Cons.prems(1) by (simp add: min_step_simps)
    from Cons.IH[OF f nan] obtain pre post where
      eq: "j # xs = pre @ m # post"
      and pre: "\<forall>x\<in>set pre. js_lt (to_num (dst m)) (to_num (dst x))"
      and post: "\<forall>x\<in>set post. \<not> js_lt (to_num (dst x)) (to_num (dst m))"
      by blast
    show ?thesis
    proof (cases pre)
      case Nil
      with eq have "m = j" "xs = post" by simp_all
      then have "j # a # xs = [] @ m # (a # post) \<and>
        (\<forall>x\<in>set []. js_lt (to_num (dst m)) (to_num (dst x))) \<and>
        (\<forall>x\<in>set (a # post). \<not> js_lt (to_num (dst x)) (to_num (dst m)))"
        using False post by simp
      then show ?thesis by blast
    next
      case (Cons b pre')
      with eq have b: "b = j" and xs: "xs = pre' @ m # post" by simp_all
      have "js_lt (to_num (dst m)) (to_num (dst j))"
        using pre Cons b by simp
      then have "js_lt (to_num (dst m)) (to_num (dst a))"
        using False a by (rule js_lt_le_trans)
      then have "j # a # xs = (j # a # pre') @ m # post \<and>
        (\<forall>x\<in>set (j # a # pre'). js_lt (to_num (dst m)) (to_num (dst x))) \<and>
        (\<forall>x\<in>set post. \<not> js_lt (to_num (dst x)) (to_num (dst m)))"
        using xs pre post Cons b by simp
      then show ?thesis by blast
    qed
  qed
qed

lemma minNodeId_split:
  assumes "minNodeId dst unv = Some m" and "\<forall>x\<in>set unv. to_num (dst x) \<noteq> NaN"
  shows "\<exists>pre post. unv = pre @ m # post \<and>
            (\<forall>x\<in>set pre. js_lt (to_num (dst m)) (to_num (dst x))) \<and>
            (\<forall>x\<in>set post. \<not> js_lt (to_num (dst x)) (to_num (dst m)))"
proof (cases unv)
  case Nil
  with assms show ?thesis by (simp add: minNodeId_def)
next
  case (Cons j xs)
  then have f: "foldl (min_step dst) (Some j) xs = Some m"
    using assms(1) by (simp add: minNodeId_def min_step_simps)
  have "\<forall>x\<in>set xs. to_num (dst x) \<noteq> NaN" using assms(2) Cons by simp
  from foldl_min_step_split[OF f this] show ?thesis unfolding Cons .
qed

lemma minNodeId_least:
  assumes "minNodeId dst unv = Some m" and "\<forall>x\<in>set unv. to_num (dst x) \<noteq> NaN"
  shows "\<forall>x\<in>set unv. \<not> js_lt (to_num (dst x)) (to_num (dst m))"
proof -
  from minNodeId_split[OF assms] obtain pre post where
    "unv = pre @ m # post"
    "\<forall>x\<in>set pre. js_lt (to_num (dst m)) (to_num (dst x))"
    "\<forall>x\<in>set post. \<not> js_lt (to_num (dst x)) (to_num (dst m))"
    by blast
  then show ?thesis
    using js_lt_irrefl[of "to_num (dst m)"] js_lt_trans[of "to_num (dst m)" _ "to_num (dst m)"]
    by auto
qed

section \<open>Paths, chains of predecessors and the search invariant\<close>

lemma edge_path_append:
  "edge_path g u (es1 @ es2) v \<longleftrightarrow> (\<exists>x. edge_path g u es1 x \<and> edge_path g x es2 v)"
  by (induction es1 arbitrary: u) auto

lemma edge_path_snoc:
  "edge_path g u es x \<Longrightarrow> e \<in> set (edges g) \<Longrightarrow> efrom e = x \<Longrightarrow>
   edge_path g u (es @ [e]) (eto e)"
  by (simp add: edge_path_append)

lemma edge_path_nodes:
  "edge_path g u es v \<Longrightarrow> set (u # map eto es) = set (map efrom es) \<union> {v}"
  by (induction es arbitrary: u) auto

lemma wsum_Nil: "wsum [] = Fin 0"
  by (simp add: wsum_def)

lemma wsum_snoc: "wsum (es @ [e]) = js_add (wsum es) (edge_weight e)"
  by (simp add: wsum_def)

lemma chain_mem: "chain prev v p \<Longrightarrow> v \<in> set p"
  by (induction rule: chain.induct) auto

lemma chain_upd:
  "chain prev v p \<Longrightarrow> y \<notin> set p \<Longrightarrow> chain (prev(y \<mapsto> z)) v p"
proof (induction rule: chain.induct)
  case (root prev v)
  then show ?case by (auto intro: chain.root)
next
  case (link prev v u p)
  then show ?case by (auto intro: chain.link)
qed

lemma backtrack_chain:
  "chain prev v p \<Longrightarrow> backtrack prev (NodeId v) acc = Some (map NodeId p @ acc)"
proof (induction arbitrary: acc rule: chain.induct)
  case (root prev v)
  then have "prev_lookup prev (NodeId v) = Null" by (simp add: prev_lookup_def)
  then show ?case
    by (simp add: backtrack.simps[of prev "NodeId v"] backtrack.simps[of prev Null])
next
  case (link prev v u p)
  then have "prev_lookup prev (NodeId v) = NodeId u" by (simp add: prev_lookup_def)
  then show ?case
    by (simp add: backtrack.simps[of prev "NodeId v"] link.IH)
qed

text \<open>Once \<^verbatim>\<open>current\<close> is \<^verbatim>\<open>undefined\<close> the loop \<^verbatim>\<open>while (current !== null)\<close> has no
  exit: \<^verbatim>\<open>prev[undefined]\<close> is \<^verbatim>\<open>undefined\<close> again.\<close>

lemma backtrack_Some_not_Undefined:
  assumes "backtrack prev current p = Some y"
  shows "current \<noteq> Undefined"
proof (rule backtrack.raw_induct[where P = "\<lambda>prev current path y. current \<noteq> Undefined"])
  show "backtrack prev current p = Some y" by fact
next
  fix bt :: "prev_tbl \<Rightarrow> ref \<Rightarrow> ref list \<Rightarrow> ref list option"
  fix prev current path y
  assume IH: "\<And>prev current path y. bt prev current path = Some y \<Longrightarrow> current \<noteq> Undefined"
    and eq: "(if current = Null then Some path
              else bt prev (prev_lookup prev current) (current # path)) = Some y"
  show "current \<noteq> Undefined"
  proof
    assume "current = Undefined"
    then have "bt prev Undefined (current # path) = Some y"
      using eq by (simp add: prev_lookup_def)
    then have "Undefined \<noteq> Undefined" by (rule IH)
    then show False by simp
  qed
qed

lemma backtrack_Undefined: "backtrack prev Undefined p = None"
  using backtrack_Some_not_Undefined[of prev Undefined p] by (cases "backtrack prev Undefined p") auto

lemma backtrack_missing_key:
  "prev n = None \<Longrightarrow> backtrack prev (NodeId n) p = None"
  by (simp add: backtrack.simps[of prev "NodeId n"] prev_lookup_def backtrack_Undefined)

subsection \<open>Relaxation keeps the tables consistent\<close>

lemma relax_cases:
  assumes "relax unv u (dst, prv) e = (dst', prv')"
  obtains (same) "dst' = dst" "prv' = prv"
  | (upd) "eto e \<in> set unv"
      "js_lt (js_add (to_num (dst u)) (edge_weight e)) (to_num (dst (eto e)))"
      "dst' = dst(eto e \<mapsto> js_add (to_num (dst u)) (edge_weight e))"
      "prv' = prv(eto e \<mapsto> Some u)"
  using assms by (auto simp: relax_def Let_def split: if_splits)

lemma relax_outside:
  assumes "relax unv u (dst, prv) e = (dst', prv')" and "v \<notin> set unv"
  shows "dst' v = dst v \<and> prv' v = prv v"
  using assms(1)
proof (cases rule: relax_cases)
  case same
  then show ?thesis by simp
next
  case upd
  with assms(2) show ?thesis by auto
qed

lemma relax_decreases:
  assumes "relax unv u (dst, prv) e = (dst', prv')"
  shows "dst' v = dst v \<or> js_lt (to_num (dst' v)) (to_num (dst v))"
  using assms
proof (cases rule: relax_cases)
  case same
  then show ?thesis by simp
next
  case upd
  then show ?thesis by (auto simp: to_num_def)
qed

lemma relax_preserves:
  assumes ok: "\<forall>v\<in>node_ids g. tbl_ok g start unv dst prv v"
    and m: "m \<in> node_ids g" "m \<notin> set unv"
    and unv: "set unv \<subseteq> node_ids g"
    and e: "e \<in> set (edges g)" "efrom e = m"
    and r: "relax unv m (dst, prv) e = (dst', prv')"
  shows "\<forall>v\<in>node_ids g. tbl_ok g start unv dst' prv' v"
  using r
proof (cases rule: relax_cases)
  case same
  with ok show ?thesis by simp
next
  case upd
  let ?y = "eto e"
  from ok m obtain es where es: "edge_path g start es m" "dst m = Some (wsum es)"
    "js_lt (wsum es) Infinity" "chain prv m (start # map eto es)"
    "set (map efrom es) \<subseteq> node_ids g - set unv"
    unfolding tbl_ok_def by blast
  have w': "wsum (es @ [e]) = js_add (to_num (dst m)) (edge_weight e)"
    using es(2) by (simp add: wsum_snoc to_num_def)
  from upd(2) have below: "js_lt (wsum (es @ [e])) Infinity"
    unfolding w' by (rule js_lt_below)
  have ym: "?y \<noteq> m" using upd(1) m(2) by auto
  have outside: "?y \<notin> set p" if "set p \<subseteq> node_ids g - set unv" for p
    using that upd(1) by auto
  show ?thesis
  proof
    fix v assume v: "v \<in> node_ids g"
    show "tbl_ok g start unv dst' prv' v"
    proof (cases "v = ?y")
      case True
      have nodes: "set (start # map eto es) = set (map efrom es) \<union> {m}"
        using es(1) by (rule edge_path_nodes)
      have "?y \<notin> set (start # map eto es)"
        unfolding nodes using outside[OF es(5)] ym by simp
      then have "chain prv' m (start # map eto es)"
        unfolding upd(4) using es(4) by (intro chain_upd)
      moreover have "prv' ?y = Some (Some m)" by (simp add: upd(4))
      ultimately have "chain prv' ?y ((start # map eto es) @ [?y])"
        by (intro chain.link)
      then have c: "chain prv' ?y (start # map eto (es @ [e]))" by simp
      have p: "edge_path g start (es @ [e]) ?y"
        using es(1) e by (rule edge_path_snoc)
      have s: "set (map efrom (es @ [e])) \<subseteq> node_ids g - set unv"
        using es(5) e(2) m by auto
      have "dst' ?y = Some (wsum (es @ [e]))" by (simp add: upd(3) w')
      with p below c s show ?thesis
        unfolding tbl_ok_def True by blast
    next
      case False
      then have same: "dst' v = dst v" "prv' v = prv v"
        by (simp_all add: upd(3,4))
      from ok v have "tbl_ok g start unv dst prv v" by blast
      then consider (untouched) "dst v = Some Infinity" "prv v = Some None" "v \<in> set unv"
        | (found) es' where "edge_path g start es' v" "dst v = Some (wsum es')"
            "js_lt (wsum es') Infinity" "chain prv v (start # map eto es')"
            "set (map efrom es') \<subseteq> node_ids g - set unv"
        unfolding tbl_ok_def by blast
      then show ?thesis
      proof cases
        case untouched
        then show ?thesis unfolding tbl_ok_def same by blast
      next
        case found
        have nodes: "set (start # map eto es') = set (map efrom es') \<union> {v}"
          using found(1) by (rule edge_path_nodes)
        have "?y \<notin> set (start # map eto es')"
          unfolding nodes using outside[OF found(5)] False by simp
        then have "chain prv' v (start # map eto es')"
          unfolding upd(4) using found(4) by (intro chain_upd)
        with found show ?thesis unfolding tbl_ok_def same by blast
      qed
    qed
  qed
qed

lemma foldl_relax_preserves:
  assumes "\<forall>v\<in>node_ids g. tbl_ok g start unv (fst tbl) (snd tbl) v"
    and "m \<in> node_ids g" "m \<notin> set unv" "set unv \<subseteq> node_ids g"
    and "\<forall>e\<in>set es. e \<in> set (edges g) \<and> efrom e = m"
  shows "\<forall>v\<in>node_ids g. tbl_ok g start unv (fst (foldl (relax unv m) tbl es))
           (snd (foldl (relax unv m) tbl es)) v"
  using assms(1,5)
proof (induction es arbitrary: tbl)
  case Nil
  then show ?case by simp
next
  case (Cons e es)
  obtain dst' prv' where r: "relax unv m (fst tbl, snd tbl) e = (dst', prv')"
    by (cases "relax unv m (fst tbl, snd tbl) e") auto
  have e: "e \<in> set (edges g)" "efrom e = m" using Cons.prems(2) by simp_all
  have "\<forall>v\<in>node_ids g. tbl_ok g start unv dst' prv' v"
    using Cons.prems(1) assms(2,3,4) e r by (rule relax_preserves)
  then have "\<forall>v\<in>node_ids g. tbl_ok g start unv (fst (dst', prv')) (snd (dst', prv')) v"
    by simp
  moreover have "\<forall>e\<in>set es. e \<in> set (edges g) \<and> efrom e = m"
    using Cons.prems(2) by simp
  ultimately have "\<forall>v\<in>node_ids g. tbl_ok g start unv (fst (foldl (relax unv m) (dst', prv') es))
           (snd (foldl (relax unv m) (dst', prv') es)) v"
    by (rule Cons.IH)
  then show ?case using r by simp
qed

lemma foldl_relax_outside:
  assumes "v \<notin> set unv"
  shows "fst (foldl (relax unv m) tbl es) v = fst tbl v \<and>
         snd (foldl (relax unv m) tbl es) v = snd tbl v"
proof (induction es arbitrary: tbl)
  case Nil
  then show ?case by simp
next
  case (Cons e es)
  obtain dst' prv' where r: "relax unv m (fst tbl, snd tbl) e = (dst', prv')"
    by (cases "relax unv m (fst tbl, snd tbl) e") auto
  from relax_outside[OF r assms] Cons.IH[of "(dst', prv')"] r
  show ?case by simp
qed

lemma foldl_relax_decreases:
  "fst (foldl (relax unv m) tbl es) v = fst tbl v \<or>
   js_lt (to_num (fst (foldl (relax unv m) tbl es) v)) (to_num (fst tbl v))"
proof (induction es arbitrary: tbl)
  case Nil
  then show ?case by simp
next
  case (Cons e es)
  obtain dst' prv' where r: "relax unv m (fst tbl, snd tbl) e = (dst', prv')"
    by (cases "relax unv m (fst tbl, snd tbl) e") auto
  from relax_decreases[OF r, of v] Cons.IH[of "(dst', prv')"] r
  show ?case by (auto dest: js_lt_trans)
qed

subsection \<open>The invariant of the search loop\<close>

lemma iteration_cases:
  assumes "unvisited s \<noteq> []"
  obtains (unreachable) m where "minNodeId (dists s) (unvisited s) = Some m"
      "dists s m = Some Infinity" "iteration g endn s = Break s"
  | (arrived) "minNodeId (dists s) (unvisited s) = Some endn"
      "dists s endn \<noteq> Some Infinity"
      "iteration g endn s = Break (s\<lparr>unvisited := removeAll endn (unvisited s)\<rparr>)"
  | (relaxed) m where "minNodeId (dists s) (unvisited s) = Some m"
      "dists s m \<noteq> Some Infinity" "m \<noteq> endn"
      "iteration g endn s =
         Continue \<lparr>dists = fst (foldl (relax (removeAll m (unvisited s)) m) (dists s, prevs s)
                                  (filter (\<lambda>e. efrom e = m) (edges g))),
                   prevs = snd (foldl (relax (removeAll m (unvisited s)) m) (dists s, prevs s)
                                  (filter (\<lambda>e. efrom e = m) (edges g))),
                   unvisited = removeAll m (unvisited s)\<rparr>"
proof -
  from assms obtain m where m: "minNodeId (dists s) (unvisited s) = Some m"
    using minNodeId_None[of "dists s" "unvisited s"] by (cases "minNodeId (dists s) (unvisited s)") auto
  show thesis
  proof (cases "dists s m = Some Infinity")
    case True
    with m have "iteration g endn s = Break s" by (simp add: iteration_def)
    with m True show thesis by (rule unreachable)
  next
    case False
    show thesis
    proof (cases "m = endn")
      case True
      with m False show thesis by (intro arrived) (simp_all add: iteration_def Let_def)
    next
      case neq: False
      with m False show thesis by (intro relaxed[of m]) (simp_all add: iteration_def Let_def)
    qed
  qed
qed

lemma tbl_ok_not_NaN:
  "tbl_ok g start unv dst prv v \<Longrightarrow> to_num (dst v) \<noteq> NaN"
  by (auto simp: tbl_ok_def to_num_def)

lemma search_inv_not_NaN:
  "search_inv g start s \<Longrightarrow> \<forall>x\<in>set (unvisited s). to_num (dists s x) \<noteq> NaN"
  unfolding search_inv_def using tbl_ok_not_NaN by blast

lemma tbl_ok_visit:
  assumes "tbl_ok g start unv dst prv v" and "dst m \<noteq> Some Infinity"
  shows "tbl_ok g start (removeAll m unv) dst prv v"
proof -
  from assms(1) consider (untouched) "dst v = Some Infinity" "prv v = Some None" "v \<in> set unv"
    | (found) es where "edge_path g start es v" "dst v = Some (wsum es)"
        "js_lt (wsum es) Infinity" "chain prv v (start # map eto es)"
        "set (map efrom es) \<subseteq> node_ids g - set unv"
    unfolding tbl_ok_def by blast
  then show ?thesis
  proof cases
    case untouched
    with assms(2) have "v \<noteq> m" by auto
    with untouched show ?thesis unfolding tbl_ok_def by simp
  next
    case found
    from found(5) have "set (map efrom es) \<subseteq> node_ids g - set (removeAll m unv)" by auto
    with found show ?thesis unfolding tbl_ok_def by blast
  qed
qed

lemma search_inv_visit:
  assumes "search_inv g start s" and "dists s m \<noteq> Some Infinity"
  shows "search_inv g start (s\<lparr>unvisited := removeAll m (unvisited s)\<rparr>)"
  using assms unfolding search_inv_def by (auto intro: tbl_ok_visit)

lemma search_inv_relaxed:
  assumes inv: "search_inv g start s"
    and m: "minNodeId (dists s) (unvisited s) = Some m" "dists s m \<noteq> Some Infinity"
  shows "search_inv g start
           \<lparr>dists = fst (foldl (relax (removeAll m (unvisited s)) m) (dists s, prevs s)
                           (filter (\<lambda>e. efrom e = m) (edges g))),
            prevs = snd (foldl (relax (removeAll m (unvisited s)) m) (dists s, prevs s)
                           (filter (\<lambda>e. efrom e = m) (edges g))),
            unvisited = removeAll m (unvisited s)\<rparr>"
proof -
  let ?unv = "removeAll m (unvisited s)"
  let ?es = "filter (\<lambda>e. efrom e = m) (edges g)"
  let ?tbl = "foldl (relax ?unv m) (dists s, prevs s) ?es"
  from inv have sub: "set (unvisited s) \<subseteq> node_ids g"
    and out: "\<forall>v. v \<notin> node_ids g \<longrightarrow> dists s v = None \<and> prevs s v = None"
    and ok: "\<forall>v\<in>node_ids g. tbl_ok g start (unvisited s) (dists s) (prevs s) v"
    unfolding search_inv_def by blast+
  have mem: "m \<in> set (unvisited s)" using m(1) by (rule minNodeId_mem)
  with sub have mid: "m \<in> node_ids g" by blast
  have sub': "set ?unv \<subseteq> node_ids g" using sub by auto
  have ok0: "\<forall>v\<in>node_ids g. tbl_ok g start ?unv (fst (dists s, prevs s)) (snd (dists s, prevs s)) v"
    using ok m(2) by (auto intro: tbl_ok_visit)
  have ok': "\<forall>v\<in>node_ids g. tbl_ok g start ?unv (fst ?tbl) (snd ?tbl) v"
    using ok0 mid _ sub' by (rule foldl_relax_preserves) simp_all
  have out': "\<forall>v. v \<notin> node_ids g \<longrightarrow> fst ?tbl v = None \<and> snd ?tbl v = None"
  proof (intro allI impI)
    fix v assume v: "v \<notin> node_ids g"
    with sub' have "v \<notin> set ?unv" by blast
    from foldl_relax_outside[OF this, of m "(dists s, prevs s)" ?es] out v
    show "fst ?tbl v = None \<and> snd ?tbl v = None" by simp
  qed
  from sub' out' ok' show ?thesis unfolding search_inv_def by simp
qed

lemma search_inv_init: "search_inv g start (init_state start g)"
proof -
  let ?s = "init_state start g"
  have "tbl_ok g start (unvisited ?s) (dists ?s) (prevs ?s) v" if v: "v \<in> node_ids g" for v
  proof (cases "v = start")
    case True
    have "edge_path g start [] v" using True by simp
    moreover have "chain (prevs ?s) v (start # map eto [])"
      using True v by (auto simp: prevs_init_state intro: chain.root)
    moreover have "dists ?s v = Some (wsum [])"
      using True v by (simp add: dists_init_state wsum_Nil)
    moreover have "js_lt (wsum []) Infinity" by (simp add: wsum_Nil)
    moreover have "set (map efrom []) \<subseteq> node_ids g - set (unvisited ?s)" by simp
    ultimately show ?thesis unfolding tbl_ok_def by blast
  next
    case False
    with v show ?thesis
      unfolding tbl_ok_def by (simp add: dists_init_state prevs_init_state unvisited_init_state)
  qed
  then show ?thesis
    unfolding search_inv_def
    by (simp add: dists_init_state prevs_init_state unvisited_init_state)
qed

lemma search_inv_search:
  "search_inv g start s \<Longrightarrow> search_inv g start (search g endn s)"
proof (induction g endn s rule: search.induct)
  case (1 g endn s)
  show ?case
  proof (cases "unvisited s = []")
    case True
    with 1(2) show ?thesis by (simp add: search.simps[of g endn s])
  next
    case False
    then show ?thesis
    proof (cases rule: iteration_cases[of s g endn])
      case (unreachable m)
      with False 1(2) show ?thesis by (simp add: search.simps[of g endn s])
    next
      case arrived
      with False search_inv_visit[OF 1(2) arrived(2)] show ?thesis
        by (simp add: search.simps[of g endn s])
    next
      case (relaxed m)
      from search_inv_relaxed[OF 1(2) relaxed(1,2)] relaxed(4) False
      show ?thesis
        using 1(1)[OF False relaxed(4)] by (simp add: search.simps[of g endn s])
    qed
  qed
qed

text \<open>When \<^verbatim>\<open>end\<close> is the id of a node, the walk along \<^verbatim>\<open>prev\<close> ends.\<close>

lemma backtrack_after_search:
  assumes "endn \<in> node_ids g"
  shows "(dists (search g endn (init_state start g)) endn = Some Infinity \<and>
          backtrack (prevs (search g endn (init_state start g))) (NodeId endn) [] =
            Some [NodeId endn]) \<or>
         (\<exists>es. edge_path g start es endn \<and> js_lt (wsum es) Infinity \<and>
            dists (search g endn (init_state start g)) endn = Some (wsum es) \<and>
            chain (prevs (search g endn (init_state start g))) endn (start # map eto es) \<and>
            backtrack (prevs (search g endn (init_state start g))) (NodeId endn) [] =
              Some (map NodeId (start # map eto es)))"
proof -
  let ?s = "search g endn (init_state start g)"
  have "search_inv g start ?s" using search_inv_init by (rule search_inv_search)
  with assms have "tbl_ok g start (unvisited ?s) (dists ?s) (prevs ?s) endn"
    unfolding search_inv_def by blast
  then consider (untouched) "dists ?s endn = Some Infinity" "prevs ?s endn = Some None"
    | (found) es where "edge_path g start es endn" "js_lt (wsum es) Infinity"
        "dists ?s endn = Some (wsum es)" "chain (prevs ?s) endn (start # map eto es)"
    unfolding tbl_ok_def by blast
  then show ?thesis
  proof cases
    case untouched
    from untouched(2) have "chain (prevs ?s) endn [endn]" by (rule chain.root)
    from backtrack_chain[OF this, of "[]"] untouched(1) show ?thesis by simp
  next
    case found
    from backtrack_chain[OF found(4), of "[]"] found show ?thesis by auto
  qed
qed

lemma dijkstra_returns:
  assumes "endn \<in> node_ids g"
  shows "\<exists>r. dijkstra start endn g = Some r"
  using backtrack_after_search[OF assms, of start]
  by (auto simp: dijkstra_def Let_def)

lemma dijkstra_missing_end:
  assumes "endn \<notin> node_ids g"
  shows "dijkstra start endn g = None"
proof -
  let ?s = "search g endn (init_state start g)"
  have "search_inv g start ?s" using search_inv_init by (rule search_inv_search)
  with assms have "prevs ?s endn = None" unfolding search_inv_def by blast
  then have "backtrack (prevs ?s) (NodeId endn) [] = None" by (rule backtrack_missing_key)
  then show ?thesis by (simp add: dijkstra_def Let_def)
qed

lemma dijkstra_no_path:
  assumes "endn \<in> node_ids g" and "\<not> (\<exists>es. edge_path g start es endn)"
  shows "dijkstra start endn g = Some no_path"
proof -
  from assms(2) have "start \<noteq> endn" using edge_path.simps(1)[of g start endn] by blast
  with backtrack_after_search[OF assms(1), of start] assms(2) show ?thesis
    by (auto simp: dijkstra_def Let_def first_of_def)
qed

subsection \<open>The first pass of the loop\<close>

lemma minNodeId_init:
  assumes "start \<in> node_ids g"
  shows "minNodeId (dists (init_state start g)) (unvisited (init_state start g)) = Some start"
proof -
  let ?s = "init_state start g"
  have ne: "unvisited ?s \<noteq> []"
    using assms unvisited_init_state[of start g] by auto
  then obtain m where m: "minNodeId (dists ?s) (unvisited ?s) = Some m"
    using minNodeId_None[of "dists ?s" "unvisited ?s"]
    by (cases "minNodeId (dists ?s) (unvisited ?s)") auto
  have "\<forall>x\<in>set (unvisited ?s). \<not> js_lt (to_num (dists ?s x)) (to_num (dists ?s m))"
    using m search_inv_not_NaN[OF search_inv_init] by (rule minNodeId_least)
  then have "\<not> js_lt (to_num (dists ?s start)) (to_num (dists ?s m))"
    using assms by (simp add: unvisited_init_state)
  moreover have "m \<in> node_ids g"
    using minNodeId_mem[OF m] by (simp add: unvisited_init_state)
  ultimately have "m = start"
    using assms by (auto simp: dists_init_state to_num_def split: if_splits)
  with m show ?thesis by simp
qed

lemma search_start_is_end:
  assumes "start \<in> node_ids g"
  shows "search g start (init_state start g) =
           (init_state start g)\<lparr>unvisited := removeAll start (unvisited (init_state start g))\<rparr>"
proof -
  let ?s = "init_state start g"
  have ne: "unvisited ?s \<noteq> []"
    using assms unvisited_init_state[of start g] by auto
  have d: "dists ?s start = Some (Fin 0)" using assms by (simp add: dists_init_state)
  have "iteration g start ?s = Break (?s\<lparr>unvisited := removeAll start (unvisited ?s)\<rparr>)"
    by (simp add: iteration_def minNodeId_init[OF assms] d)
  with ne show ?thesis by (simp add: search.simps[of g start ?s])
qed

lemma search_missing_start:
  assumes "start \<notin> node_ids g"
  shows "search g endn (init_state start g) = init_state start g"
proof (cases "unvisited (init_state start g) = []")
  case True
  then show ?thesis by (simp add: search.simps[of g endn "init_state start g"])
next
  case False
  let ?s = "init_state start g"
  from False obtain m where m: "minNodeId (dists ?s) (unvisited ?s) = Some m"
    using minNodeId_None[of "dists ?s" "unvisited ?s"]
    by (cases "minNodeId (dists ?s) (unvisited ?s)") auto
  have "m \<in> node_ids g"
    using minNodeId_mem[OF m] by (simp add: unvisited_init_state)
  with assms have "dists ?s m = Some Infinity" by (auto simp: dists_init_state)
  with m have "iteration g endn ?s = Break ?s" by (simp add: iteration_def)
  with False show ?thesis by (simp add: search.simps[of g endn ?s])
qed

section \<open>Claims about \<^verbatim>\<open>dijkstra\<close> that need no assumption on the weights\<close>

text \<open>
  C3 (the code departs from the claim).  For the graph with the nodes 1 and 2 and the
  edge \<open>1 \<rightarrow> 2\<close> of weight 12, the call \<^verbatim>\<open>dijkstra(1, 99, graph)\<close> does not return:
  99 is not the id of a node, \<^verbatim>\<open>prev[99]\<close> is \<^verbatim>\<open>undefined\<close>, and the loop
  \<^verbatim>\<open>while (current !== null)\<close> never sees \<^verbatim>\<open>null\<close>.
\<close>

theorem dijkstra_missing_end_diverges:
  "dijkstra 1 99 weighted_graph = None"
  by (rule dijkstra_missing_end) (simp add: node_ids_def weighted_graph_def mk_node_def)

text \<open>
  C4 (the code departs from the claim).  In the graph with the nodes 1 and 2 and no
  edge there is no edge path from 1 to 99, and \<^verbatim>\<open>dijkstra(1, 99, graph)\<close> does not
  return the no-path result: it does not return at all.
\<close>

theorem dijkstra_no_path_missing_end:
  "(\<nexists>es. edge_path isolated_graph 1 es 99) \<and> dijkstra 1 99 isolated_graph = None"
proof
  show "\<nexists>es. edge_path isolated_graph 1 es 99"
  proof
    assume "\<exists>es. edge_path isolated_graph 1 es 99"
    then obtain es where "edge_path isolated_graph 1 es 99" ..
    then show False by (cases es) (simp_all add: isolated_graph_def)
  qed
  show "dijkstra 1 99 isolated_graph = None"
    by (rule dijkstra_missing_end) (simp add: node_ids_def isolated_graph_def mk_node_def)
qed

text \<open>
  C5, counterexample.  With \<^verbatim>\<open>start == end == 5\<close> on a graph whose nodes are 1 and 2,
  \<^verbatim>\<open>dijkstra\<close> returns nothing, hence not the path \<^verbatim>\<open>[5]\<close>.
\<close>

theorem dijkstra_same_missing_id:
  "dijkstra 5 5 isolated_graph = None"
  by (rule dijkstra_missing_end) (simp add: node_ids_def isolated_graph_def mk_node_def)

text \<open>
  C5, amended.  When \<^verbatim>\<open>start == end\<close> is the id of a node of the graph, whatever
  the edges and their weights, \<^verbatim>\<open>dijkstra\<close> returns the path \<^verbatim>\<open>[start]\<close> with
  \<^verbatim>\<open>totalWeight\<close> 0 and \<^verbatim>\<open>totalDistance\<close> 0.
\<close>

theorem dijkstra_start_is_end:
  assumes "start \<in> node_ids g"
  shows "\<exists>r. dijkstra start start g = Some r \<and> path r = [NodeId start] \<and>
           totalWeight r = Some (Fin 0) \<and> totalDistance r = Fin 0"
proof -
  let ?s = "init_state start g"
  have "prevs ?s start = Some None" using assms by (simp add: prevs_init_state)
  then have "chain (prevs ?s) start [start]" by (rule chain.root)
  from backtrack_chain[OF this, of "[]"]
  have "backtrack (prevs ?s) (NodeId start) [] = Some [NodeId start]" by simp
  moreover have "dists ?s start = Some (Fin 0)" using assms by (simp add: dists_init_state)
  ultimately show ?thesis
    by (simp add: dijkstra_def search_start_is_end[OF assms] first_of_def)
qed

theorem dijkstra_start_is_end_witness:
  "\<exists>r. dijkstra 2 2 weighted_graph = Some r \<and> path r = [NodeId 2] \<and>
       totalWeight r = Some (Fin 0) \<and> totalDistance r = Fin 0"
proof -
  have "(2::nat) \<in> node_ids weighted_graph"
    by (simp add: node_ids_def weighted_graph_def mk_node_def)
  then show ?thesis by (rule dijkstra_start_is_end)
qed

text \<open>
  C10.  When \<^verbatim>\<open>start\<close> is not the id of a node and \<^verbatim>\<open>end\<close> is (so that they
  differ), \<^verbatim>\<open>dijkstra\<close> returns, and what it returns is the no-path result: empty
  \<^verbatim>\<open>path\<close> and \<^verbatim>\<open>pathNodes\<close>, \<^verbatim>\<open>totalWeight\<close> \<^verbatim>\<open>Infinity\<close>, \<^verbatim>\<open>totalDistance\<close> 0.
\<close>

theorem dijkstra_missing_start:
  assumes "start \<notin> node_ids g" and "endn \<in> node_ids g"
  shows "dijkstra start endn g =
           Some \<lparr>path = [], totalWeight = Some Infinity, totalDistance = Fin 0, pathNodes = []\<rparr>"
proof -
  let ?s = "init_state start g"
  have "prevs ?s endn = Some None" using assms(2) by (simp add: prevs_init_state)
  then have "chain (prevs ?s) endn [endn]" by (rule chain.root)
  from backtrack_chain[OF this, of "[]"]
  have "backtrack (prevs ?s) (NodeId endn) [] = Some [NodeId endn]" by simp
  moreover have "start \<noteq> endn" using assms by auto
  ultimately show ?thesis
    by (simp add: dijkstra_def search_missing_start[OF assms(1)] first_of_def no_path_def)
qed

theorem dijkstra_missing_start_witness:
  "dijkstra 7 2 weighted_graph =
     Some \<lparr>path = [], totalWeight = Some Infinity, totalDistance = Fin 0, pathNodes = []\<rparr>"
  by (rule dijkstra_missing_start) (simp_all add: node_ids_def weighted_graph_def mk_node_def)

section \<open>The order of selection\<close>










section \<open>Optimality of the search\<close>

lemma edge_path_subset: "edge_path g u es v \<Longrightarrow> set es \<subseteq> set (edges g)"
  by (induction es arbitrary: u) auto

lemma edge_weight_nonneg:
  "nonneg_weights g \<Longrightarrow> e \<in> set (edges g) \<Longrightarrow> \<exists>w. edge_weight e = Fin w \<and> 0 \<le> w"
  by (auto simp: nonneg_weights_def edge_weight_def)

subsection \<open>Sums of weights that are not negative\<close>

lemma nonneg_double_not_NaN: "nonneg_double x \<Longrightarrow> x \<noteq> NaN"
  by (auto simp: nonneg_double_def)

lemma nonneg_double_below:
  "nonneg_double x \<Longrightarrow> js_lt x Infinity \<Longrightarrow> \<exists>d. x = Fin d \<and> 0 \<le> d \<and> fl d = Fin d"
  by (auto simp: nonneg_double_def)

lemma nonneg_double_ge_0: "nonneg_double x \<Longrightarrow> \<not> js_lt x (Fin 0)"
  by (auto simp: nonneg_double_def)

lemma js_add_nonneg:
  assumes "nonneg_double a" and "0 \<le> w"
  shows "nonneg_double (js_add a (Fin w))"
proof (cases "a = Infinity")
  case True
  then show ?thesis by (simp add: nonneg_double_def)
next
  case False
  with assms(1) obtain d where d: "a = Fin d" "0 \<le> d" by (auto simp: nonneg_double_def)
  then have "0 \<le> d + w" using assms(2) by simp
  from fl_nonneg[OF this] show ?thesis
  proof
    assume "fl (d + w) = Infinity"
    then show ?thesis using d by (simp add: nonneg_double_def)
  next
    assume "\<exists>y. fl (d + w) = Fin y \<and> 0 \<le> y"
    then obtain y where y: "fl (d + w) = Fin y" "0 \<le> y" by blast
    from fl_idem[OF y(1)] y d show ?thesis by (simp add: nonneg_double_def)
  qed
qed

text \<open>Adding a weight that is not negative does not make a sum smaller, and the sum is
  monotone in both operands: rounding to the nearest double is monotone.\<close>

lemma js_add_mono:
  assumes "\<not> js_lt b a" and "nonneg_double a" and "nonneg_double b"
    and "0 \<le> v" and "v \<le> w"
  shows "\<not> js_lt (js_add b (Fin w)) (js_add a (Fin v))"
proof (cases "b = Infinity")
  case True
  then show ?thesis by simp
next
  case False
  with assms(3) obtain db where db: "b = Fin db" by (auto simp: nonneg_double_def)
  with assms(1,2) obtain da where da: "a = Fin da" "0 \<le> da" "da \<le> db"
    by (auto simp: nonneg_double_def)
  have "0 \<le> da + v" "da + v \<le> db + w" using da assms(4,5) by simp_all
  from fl_mono[OF this] show ?thesis by (simp add: da db)
qed

lemma js_add_ge:
  assumes "nonneg_double a" and "0 \<le> w"
  shows "\<not> js_lt (js_add a (Fin w)) a"
proof (cases "a = Infinity")
  case True
  then show ?thesis by simp
next
  case False
  with assms(1) obtain d where d: "a = Fin d" "0 \<le> d" "fl d = Fin d"
    by (auto simp: nonneg_double_def)
  have "d \<le> d + w" using assms(2) by simp
  from fl_mono[OF d(2) this] show ?thesis by (simp add: d(1,3))
qed

lemma wsum_nonneg:
  "nonneg_weights g \<Longrightarrow> set es \<subseteq> set (edges g) \<Longrightarrow> nonneg_double (wsum es)"
proof (induction es rule: rev_induct)
  case Nil
  show ?case by (simp add: wsum_Nil nonneg_double_def)
next
  case (snoc e es)
  then obtain w where "edge_weight e = Fin w" "0 \<le> w"
    using edge_weight_nonneg[of g e] by auto
  with snoc show ?case by (simp add: wsum_snoc js_add_nonneg)
qed

lemma wsum_prefix:
  "nonneg_weights g \<Longrightarrow> set (es1 @ es2) \<subseteq> set (edges g) \<Longrightarrow>
   \<not> js_lt (wsum (es1 @ es2)) (wsum es1)"
proof (induction es2 rule: rev_induct)
  case Nil
  show ?case by (simp add: js_lt_irrefl)
next
  case (snoc e es2)
  then obtain w where w: "edge_weight e = Fin w" "0 \<le> w"
    using edge_weight_nonneg[of g e] by auto
  have sub: "set (es1 @ es2) \<subseteq> set (edges g)" using snoc.prems(2) by simp
  have n: "nonneg_double (wsum (es1 @ es2))" using snoc.prems(1) sub by (rule wsum_nonneg)
  have "\<not> js_lt (wsum (es1 @ es2)) (wsum es1)" using snoc.prems(1) sub by (rule snoc.IH)
  moreover have "\<not> js_lt (js_add (wsum (es1 @ es2)) (Fin w)) (wsum (es1 @ es2))"
    using n w(2) by (rule js_add_ge)
  moreover note nonneg_double_not_NaN[OF n]
  ultimately have "\<not> js_lt (js_add (wsum (es1 @ es2)) (Fin w)) (wsum es1)"
    by (rule js_le_trans)
  then show ?case using wsum_snoc[of "es1 @ es2" e] w(1) by simp
qed

text \<open>When no weight is negative, the \<^verbatim>\<open>dist\<close> of a node that has been reached is a
  double that is not negative.\<close>

lemma tbl_ok_Fin:
  assumes "nonneg_weights g" and "tbl_ok g start unv dst prv v" and "dst v \<noteq> Some Infinity"
  shows "\<exists>d. dst v = Some (Fin d) \<and> nonneg_double (Fin d)"
proof -
  from assms(2,3) obtain es where es: "edge_path g start es v" "dst v = Some (wsum es)"
    "js_lt (wsum es) Infinity"
    unfolding tbl_ok_def by blast
  have n: "nonneg_double (wsum es)"
    using assms(1) edge_path_subset[OF es(1)] by (rule wsum_nonneg)
  from nonneg_double_below[OF n es(3)] obtain d where "wsum es = Fin d" by blast
  with n es(2) show ?thesis by simp
qed

subsection \<open>The selected node has its final distance\<close>

lemma crossing_edge:
  assumes "edge_path g u es v" and "u \<in> V" and "v \<notin> V"
  shows "\<exists>es1 e es2. es = es1 @ e # es2 \<and> edge_path g u es1 (efrom e) \<and>
           e \<in> set (edges g) \<and> efrom e \<in> V \<and> eto e \<notin> V"
  using assms
proof (induction es arbitrary: u)
  case Nil
  then show ?case by simp
next
  case (Cons e es)
  then have e: "e \<in> set (edges g)" "efrom e = u" and rest: "edge_path g (eto e) es v"
    by simp_all
  show ?case
  proof (cases "eto e \<in> V")
    case False
    have "e # es = [] @ e # es" by simp
    moreover have "edge_path g u [] (efrom e)" using e by simp
    ultimately show ?thesis using e False Cons.prems(2) by blast
  next
    case True
    from Cons.IH[OF rest True Cons.prems(3)] obtain es1 e' es2 where
      split: "es = es1 @ e' # es2" "edge_path g (eto e) es1 (efrom e')"
      "e' \<in> set (edges g)" "efrom e' \<in> V" "eto e' \<notin> V"
      by blast
    have "e # es = (e # es1) @ e' # es2" using split(1) by simp
    moreover have "edge_path g u (e # es1) (efrom e')" using e split(2) by simp
    ultimately show ?thesis using split(3,4,5) by blast
  qed
qed

text \<open>Any live path from a visited start to an unvisited node passes an unvisited
  node whose \<^verbatim>\<open>dist\<close> is at most the sum of the path.\<close>

lemma frontier:
  assumes nn: "nonneg_weights g"
    and inv: "search_inv g start s" and opt: "opt_inv g start endn s"
    and sv: "start \<in> node_ids g - set (unvisited s)"
    and p: "edge_path g start es v" "live g es" and v: "v \<in> set (unvisited s)"
  shows "\<exists>y\<in>set (unvisited s). \<not> js_lt (wsum es) (to_num (dists s y))"
proof -
  let ?V = "node_ids g - set (unvisited s)"
  from v have "v \<notin> ?V" by simp
  from crossing_edge[OF p(1) sv this] obtain es1 e es2 where
    split: "es = es1 @ e # es2" "edge_path g start es1 (efrom e)"
    "e \<in> set (edges g)" "efrom e \<in> ?V" "eto e \<notin> ?V"
    by blast
  have sub: "set es \<subseteq> set (edges g)" using p(1) by (rule edge_path_subset)
  have "eto e \<in> node_ids g" using p(2) split(1) by (simp add: live_def)
  with split(5) have y: "eto e \<in> set (unvisited s)" by simp
  have "live g es1" using p(2) split(1) by (simp add: live_def)
  with opt split(2,4) obtain dx where dx: "dists s (efrom e) = Some (Fin dx)"
    "\<not> js_lt (wsum es1) (Fin dx)"
    unfolding opt_inv_def by blast
  from inv split(4) have "tbl_ok g start (unvisited s) (dists s) (prevs s) (efrom e)"
    unfolding search_inv_def by blast
  from tbl_ok_Fin[OF nn this] dx(1) have ndx: "nonneg_double (Fin dx)" by auto
  from opt split(3,4) y
  have rel: "\<not> js_lt (js_add (to_num (dists s (efrom e))) (edge_weight e)) (to_num (dists s (eto e)))"
    unfolding opt_inv_def by blast
  obtain w where w: "edge_weight e = Fin w" "0 \<le> w"
    using edge_weight_nonneg[OF nn split(3)] by blast
  have sub1: "set es1 \<subseteq> set (edges g)" using sub split(1) by simp
  have n1: "nonneg_double (wsum es1)" using nn sub1 by (rule wsum_nonneg)
  let ?A = "js_add (Fin dx) (Fin w)"
  let ?B = "wsum (es1 @ [e])"
  have a: "\<not> js_lt ?A (to_num (dists s (eto e)))"
    using rel dx(1) w(1) by (simp add: to_num_def)
  have "\<not> js_lt (js_add (wsum es1) (Fin w)) ?A"
    using dx(2) ndx n1 w(2) by (rule js_add_mono) simp
  then have b: "\<not> js_lt ?B ?A" by (simp add: wsum_snoc w(1))
  have "es = (es1 @ [e]) @ es2" using split(1) by simp
  moreover have "set ((es1 @ [e]) @ es2) \<subseteq> set (edges g)" using sub split(1) by simp
  ultimately have c: "\<not> js_lt (wsum es) ?B" using wsum_prefix[OF nn, of "es1 @ [e]" es2] by simp
  have nA: "?A \<noteq> NaN" using js_add_nonneg[OF ndx w(2)] by (rule nonneg_double_not_NaN)
  have "nonneg_double ?B"
    using nn by (rule wsum_nonneg) (use sub1 split(3) in simp)
  then have nB: "?B \<noteq> NaN" by (rule nonneg_double_not_NaN)
  from a b nA have "\<not> js_lt ?B (to_num (dists s (eto e)))" by (rule js_le_trans)
  from this c nB have "\<not> js_lt (wsum es) (to_num (dists s (eto e)))" by (rule js_le_trans)
  with y show ?thesis by blast
qed

lemma selected_optimal:
  assumes nn: "nonneg_weights g" and st: "start \<in> node_ids g"
    and inv: "search_inv g start s" and opt: "opt_inv g start endn s"
    and m: "minNodeId (dists s) (unvisited s) = Some m" "dists s m = Some (Fin dm)"
    and p: "edge_path g start es m" "live g es"
  shows "\<not> js_lt (wsum es) (Fin dm)"
proof -
  have nan: "\<forall>x\<in>set (unvisited s). to_num (dists s x) \<noteq> NaN"
    using inv by (rule search_inv_not_NaN)
  have least: "\<forall>x\<in>set (unvisited s). \<not> js_lt (to_num (dists s x)) (to_num (dists s m))"
    using m(1) nan by (rule minNodeId_least)
  have mem: "m \<in> set (unvisited s)" using m(1) by (rule minNodeId_mem)
  from opt consider (visited) "start \<in> node_ids g - set (unvisited s)"
    | (initial) "s = init_state start g"
    unfolding opt_inv_def by blast
  then show ?thesis
  proof cases
    case visited
    from frontier[OF nn inv opt visited p mem] obtain y where
      y: "y \<in> set (unvisited s)" "\<not> js_lt (wsum es) (to_num (dists s y))"
      by blast
    from least y(1) have "\<not> js_lt (to_num (dists s y)) (to_num (dists s m))" by blast
    moreover note y(2)
    moreover have "to_num (dists s y) \<noteq> NaN" using nan y(1) by blast
    ultimately have "\<not> js_lt (wsum es) (to_num (dists s m))" by (rule js_le_trans)
    then show ?thesis using m(2) by (simp add: to_num_def)
  next
    case initial
    with m(1) minNodeId_init[OF st] have "m = start" by simp
    with initial m(2) st have "dm = 0" by (simp add: dists_init_state)
    moreover have "nonneg_double (wsum es)"
      using nn edge_path_subset[OF p(1)] by (rule wsum_nonneg)
    ultimately show ?thesis using nonneg_double_ge_0 by simp
  qed
qed

lemma relax_relaxed:
  assumes "relax unv m (dst, prv) e = (dst', prv')" and "eto e \<in> set unv"
  shows "\<not> js_lt (js_add (to_num (dst m)) (edge_weight e)) (to_num (dst' (eto e)))"
  using assms by (auto simp: relax_def Let_def to_num_def js_lt_irrefl split: if_splits)

lemma foldl_relax_relaxed:
  assumes "m \<notin> set unv" and "e \<in> set es" and "eto e \<in> set unv"
  shows "\<not> js_lt (js_add (to_num (fst tbl m)) (edge_weight e))
             (to_num (fst (foldl (relax unv m) tbl es) (eto e)))"
  using assms(2)
proof (induction es arbitrary: tbl)
  case Nil
  then show ?case by simp
next
  case (Cons e' es)
  obtain dst' prv' where r: "relax unv m (fst tbl, snd tbl) e' = (dst', prv')"
    by (cases "relax unv m (fst tbl, snd tbl) e'") auto
  have same: "dst' m = fst tbl m" using relax_outside[OF r assms(1)] by simp
  have fold: "foldl (relax unv m) tbl (e' # es) = foldl (relax unv m) (dst', prv') es"
    using r by simp
  show ?case
  proof (cases "e \<in> set es")
    case True
    from Cons.IH[OF True, of "(dst', prv')"] show ?thesis
      unfolding fold by (simp add: same)
  next
    case False
    with Cons.prems have e: "e = e'" by simp
    have "\<not> js_lt (js_add (to_num (fst tbl m)) (edge_weight e)) (to_num (dst' (eto e)))"
      using r assms(3) unfolding e by (rule relax_relaxed)
    with foldl_relax_decreases[of unv m "(dst', prv')" es "eto e"]
    show ?thesis unfolding fold by (auto dest: js_lt_trans)
  qed
qed

lemma opt_inv_relaxed:
  assumes nn: "nonneg_weights g" and st: "start \<in> node_ids g"
    and inv: "search_inv g start s" and opt: "opt_inv g start endn s"
    and m: "minNodeId (dists s) (unvisited s) = Some m" "dists s m \<noteq> Some Infinity"
      "m \<noteq> endn"
  shows "opt_inv g start endn
           \<lparr>dists = fst (foldl (relax (removeAll m (unvisited s)) m) (dists s, prevs s)
                           (filter (\<lambda>e. efrom e = m) (edges g))),
            prevs = snd (foldl (relax (removeAll m (unvisited s)) m) (dists s, prevs s)
                           (filter (\<lambda>e. efrom e = m) (edges g))),
            unvisited = removeAll m (unvisited s)\<rparr>"
proof -
  let ?unv = "removeAll m (unvisited s)"
  let ?adj = "filter (\<lambda>e. efrom e = m) (edges g)"
  let ?tbl = "foldl (relax ?unv m) (dists s, prevs s) ?adj"
  let ?V = "node_ids g - set (unvisited s)"
  let ?V' = "node_ids g - set ?unv"
  have mem: "m \<in> set (unvisited s)" using m(1) by (rule minNodeId_mem)
  from inv have sub: "set (unvisited s) \<subseteq> node_ids g"
    and ok: "\<forall>v\<in>node_ids g. tbl_ok g start (unvisited s) (dists s) (prevs s) v"
    unfolding search_inv_def by blast+
  have mid: "m \<in> node_ids g" using mem sub by blast
  have V': "?V' = insert m ?V" using mid by auto
  from ok mid have "tbl_ok g start (unvisited s) (dists s) (prevs s) m" by blast
  from tbl_ok_Fin[OF nn this m(2)] obtain dm where dm: "dists s m = Some (Fin dm)"
    by blast
  have keep: "fst ?tbl v = dists s v" if "v \<in> ?V'" for v
    using foldl_relax_outside[of v ?unv m "(dists s, prevs s)" ?adj] that by simp
  from opt have d0: "start \<in> ?V \<or> s = init_state start g"
    and d1: "\<forall>v\<in>?V. \<exists>d. dists s v = Some (Fin d) \<and>
        (\<forall>es. edge_path g start es v \<and> live g es \<longrightarrow> \<not> js_lt (wsum es) (Fin d))"
    and d2: "\<forall>e\<in>set (edges g). efrom e \<in> ?V \<and> eto e \<in> set (unvisited s) \<longrightarrow>
        \<not> js_lt (js_add (to_num (dists s (efrom e))) (edge_weight e)) (to_num (dists s (eto e)))"
    and d3: "endn \<in> set (unvisited s)"
    unfolding opt_inv_def by blast+
  have c0: "start \<in> ?V'"
  proof (cases "start \<in> ?V")
    case True
    then show ?thesis by auto
  next
    case False
    with d0 have "s = init_state start g" by blast
    with m(1) minNodeId_init[OF st] have "m = start" by simp
    with st show ?thesis by simp
  qed
  have c1: "\<exists>d. fst ?tbl v = Some (Fin d) \<and>
        (\<forall>es. edge_path g start es v \<and> live g es \<longrightarrow> \<not> js_lt (wsum es) (Fin d))"
    if v: "v \<in> ?V'" for v
  proof (cases "v = m")
    case True
    have "\<forall>es. edge_path g start es m \<and> live g es \<longrightarrow> \<not> js_lt (wsum es) (Fin dm)"
      using selected_optimal[OF nn st inv opt m(1) dm] by blast
    with dm keep[OF v] True show ?thesis by simp
  next
    case False
    with v V' have "v \<in> ?V" by blast
    with d1 keep[OF v] show ?thesis by simp
  qed
  have c2: "\<not> js_lt (js_add (to_num (fst ?tbl (efrom e))) (edge_weight e)) (to_num (fst ?tbl (eto e)))"
    if e: "e \<in> set (edges g)" "efrom e \<in> ?V'" "eto e \<in> set ?unv" for e
  proof (cases "efrom e = m")
    case True
    have "m \<notin> set ?unv" by simp
    moreover have "e \<in> set ?adj" using e(1) True by simp
    ultimately have "\<not> js_lt (js_add (to_num (fst (dists s, prevs s) m)) (edge_weight e))
             (to_num (fst ?tbl (eto e)))"
      using e(3) by (rule foldl_relax_relaxed)
    then show ?thesis using keep[OF e(2)] True by simp
  next
    case False
    with e(2) V' have x: "efrom e \<in> ?V" by blast
    have "eto e \<in> set (unvisited s)" using e(3) by auto
    with d2 e(1) x have old: "\<not> js_lt (js_add (to_num (dists s (efrom e))) (edge_weight e))
        (to_num (dists s (eto e)))" by blast
    from foldl_relax_decreases[of ?unv m "(dists s, prevs s)" ?adj "eto e"] old
    have "\<not> js_lt (js_add (to_num (dists s (efrom e))) (edge_weight e)) (to_num (fst ?tbl (eto e)))"
      by (auto dest: js_lt_trans)
    then show ?thesis using keep[OF e(2)] by simp
  qed
  have c3: "endn \<in> set ?unv" using d3 m(3) by simp
  show ?thesis
    unfolding opt_inv_def using c0 c1 c2 c3 by (simp del: set_removeAll)
qed

lemma opt_inv_init:
  "endn \<in> node_ids g \<Longrightarrow> opt_inv g start endn (init_state start g)"
  unfolding opt_inv_def by (simp add: unvisited_init_state)

lemma tbl_ok_live:
  assumes "edge_path g start es v" and "set (map efrom es) \<subseteq> node_ids g - set unv"
    and "v \<in> node_ids g"
  shows "live g es"
proof -
  have "set (start # map eto es) = set (map efrom es) \<union> {v}"
    using assms(1) by (rule edge_path_nodes)
  with assms(2,3) have "set (start # map eto es) \<subseteq> node_ids g" by auto
  then show ?thesis by (simp add: live_def)
qed

text \<open>A number that is at most a number below \<^verbatim>\<open>Infinity\<close> is below \<^verbatim>\<open>Infinity\<close>.\<close>

lemma js_le_below:
  "\<not> js_lt b a \<Longrightarrow> js_lt b Infinity \<Longrightarrow> a \<noteq> NaN \<Longrightarrow> js_lt a Infinity"
  by (cases a; cases b) auto

lemma search_optimal:
  assumes nn: "nonneg_weights g" and st: "start \<in> node_ids g" and en: "endn \<in> node_ids g"
    and p0: "edge_path g start es0 endn" "live g es0" "js_lt (wsum es0) Infinity"
    and "search_inv g start s" and "opt_inv g start endn s"
  shows "\<exists>es. edge_path g start es endn \<and> live g es \<and> js_lt (wsum es) Infinity \<and>
           dists (search g endn s) endn = Some (wsum es) \<and>
           chain (prevs (search g endn s)) endn (start # map eto es) \<and>
           (\<forall>es'. edge_path g start es' endn \<and> live g es' \<longrightarrow> \<not> js_lt (wsum es') (wsum es))"
  using assms
proof (induction g endn s rule: search.induct)
  case (1 g endn s)
  note nn = 1(2) and st = 1(3) and en = 1(4) and p0 = 1(5,6,7) and inv = 1(8) and opt = 1(9)
  from opt have unv: "endn \<in> set (unvisited s)" unfolding opt_inv_def by blast
  then have ne: "unvisited s \<noteq> []" by auto
  have nan: "\<forall>x\<in>set (unvisited s). to_num (dists s x) \<noteq> NaN"
    using inv by (rule search_inv_not_NaN)
  from ne show ?case
  proof (cases rule: iteration_cases[of s g endn])
    case (unreachable m)
    have least: "\<forall>x\<in>set (unvisited s). \<not> js_lt (to_num (dists s x)) (to_num (dists s m))"
      using unreachable(1) nan by (rule minNodeId_least)
    from opt consider (visited) "start \<in> node_ids g - set (unvisited s)"
      | (initial) "s = init_state start g"
      unfolding opt_inv_def by blast
    then have False
    proof cases
      case visited
      from frontier[OF nn inv opt visited p0(1,2) unv] obtain y where
        y: "y \<in> set (unvisited s)" "\<not> js_lt (wsum es0) (to_num (dists s y))" by blast
      have "to_num (dists s y) \<noteq> NaN" using nan y(1) by blast
      with y(2) p0(3) have "js_lt (to_num (dists s y)) Infinity" by (rule js_le_below)
      with least y(1) unreachable(2) show False by (auto simp: to_num_def)
    next
      case initial
      with unreachable(1) minNodeId_init[OF st] have "m = start" by simp
      with initial unreachable(2) st show False by (simp add: dists_init_state)
    qed
    then show ?thesis ..
  next
    case arrived
    let ?s' = "s\<lparr>unvisited := removeAll endn (unvisited s)\<rparr>"
    have s': "search g endn s = ?s'"
      using ne arrived(3) by (simp add: search.simps[of g endn s])
    from inv en have ok: "tbl_ok g start (unvisited s) (dists s) (prevs s) endn"
      unfolding search_inv_def by blast
    with arrived(2) obtain es where es: "edge_path g start es endn"
      "dists s endn = Some (wsum es)" "js_lt (wsum es) Infinity"
      "chain (prevs s) endn (start # map eto es)"
      "set (map efrom es) \<subseteq> node_ids g - set (unvisited s)"
      unfolding tbl_ok_def by blast
    have lv: "live g es" using es(1,5) en by (rule tbl_ok_live)
    from tbl_ok_Fin[OF nn ok arrived(2)] obtain d where d: "dists s endn = Some (Fin d)"
      by blast
    with es(2) have w: "wsum es = Fin d" by simp
    have "\<forall>es'. edge_path g start es' endn \<and> live g es' \<longrightarrow> \<not> js_lt (wsum es') (wsum es)"
      unfolding w using selected_optimal[OF nn st inv opt arrived(1) d] by blast
    with es lv show ?thesis unfolding s' by auto
  next
    case (relaxed m)
    let ?s' = "\<lparr>dists = fst (foldl (relax (removeAll m (unvisited s)) m) (dists s, prevs s)
                                  (filter (\<lambda>e. efrom e = m) (edges g))),
                prevs = snd (foldl (relax (removeAll m (unvisited s)) m) (dists s, prevs s)
                                  (filter (\<lambda>e. efrom e = m) (edges g))),
                unvisited = removeAll m (unvisited s)\<rparr>"
    have s': "search g endn s = search g endn ?s'"
      using ne relaxed(4) by (simp add: search.simps[of g endn s])
    have "search_inv g start ?s'"
      using inv relaxed(1,2) by (rule search_inv_relaxed)
    moreover have "opt_inv g start endn ?s'"
      using nn st inv opt relaxed(1,2,3) by (rule opt_inv_relaxed)
    ultimately show ?thesis
      unfolding s' using 1(1)[OF ne relaxed(4) nn st en p0] by blast
  qed
qed

text \<open>The result of \<^verbatim>\<open>dijkstra\<close> when no weight is negative and a live path whose sum
  is below \<^verbatim>\<open>Infinity\<close> joins two nodes: the returned path is a live path of least sum,
  and \<^verbatim>\<open>totalWeight\<close> is its sum.\<close>

lemma dijkstra_optimal:
  assumes "nonneg_weights g" and "start \<in> node_ids g" and "endn \<in> node_ids g"
    and "edge_path g start es0 endn" and "live g es0" and "js_lt (wsum es0) Infinity"
  shows "\<exists>r es. dijkstra start endn g = Some r \<and>
           edge_path g start es endn \<and> live g es \<and>
           path r = map NodeId (start # map eto es) \<and>
           totalWeight r = Some (wsum es) \<and> js_lt (wsum es) Infinity \<and>
           (\<forall>es'. edge_path g start es' endn \<and> live g es' \<longrightarrow> \<not> js_lt (wsum es') (wsum es))"
proof -
  let ?s = "search g endn (init_state start g)"
  from search_optimal[OF assms search_inv_init opt_inv_init[OF assms(3)]]
  obtain es where es: "edge_path g start es endn" "live g es" "js_lt (wsum es) Infinity"
    "dists ?s endn = Some (wsum es)"
    "chain (prevs ?s) endn (start # map eto es)"
    "\<forall>es'. edge_path g start es' endn \<and> live g es' \<longrightarrow> \<not> js_lt (wsum es') (wsum es)"
    by blast
  from backtrack_chain[OF es(5), of "[]"]
  have "backtrack (prevs ?s) (NodeId endn) [] = Some (map NodeId (start # map eto es))"
    by simp
  then have "dijkstra start endn g =
      Some \<lparr>path = map NodeId (start # map eto es), totalWeight = dists ?s endn,
            totalDistance = sumDistance (edges g) (Fin 0) (map NodeId (start # map eto es)),
            pathNodes = map (node_of g) (map NodeId (start # map eto es))\<rparr>"
    by (simp add: dijkstra_def Let_def first_of_def)
  with es show ?thesis by auto
qed

section \<open>Claim C1: the minimum-weight path\<close>

text \<open>
  C1, counterexample.  The graph has non-negative weights and unique node ids, 1 and 3
  are ids of nodes, and the edges \<open>1 \<rightarrow> 2\<close>, \<open>2 \<rightarrow> 3\<close> form an edge path from 1 to 3
  whose weights sum to 2; yet \<^verbatim>\<open>dijkstra(1, 3, graph)\<close> returns the no-path result with
  \<^verbatim>\<open>totalWeight\<close> \<^verbatim>\<open>Infinity\<close>, because 2 is not in \<^verbatim>\<open>graph.nodes\<close>.
\<close>

theorem dijkstra_ignores_dead_edges:
  "nonneg_weights dead_end_graph \<and> distinct (map nid (nodes dead_end_graph)) \<and>
   1 \<in> node_ids dead_end_graph \<and> 3 \<in> node_ids dead_end_graph \<and>
   edge_path dead_end_graph 1 [mk_edge 1 2 1 None (num 1), mk_edge 2 3 1 None (num 1)] 3 \<and>
   wsum [mk_edge 1 2 1 None (num 1), mk_edge 2 3 1 None (num 1)] = Fin 2 \<and>
   dijkstra 1 3 dead_end_graph =
     Some \<lparr>path = [], totalWeight = Some Infinity, totalDistance = Fin 0, pathNodes = []\<rparr>"
proof -
  have "dijkstra 1 3 dead_end_graph =
     Some \<lparr>path = [], totalWeight = Some Infinity, totalDistance = Fin 0, pathNodes = []\<rparr>"
    by (simp add: dijkstra_eval search.simps dead_end_graph_def mk_node_def mk_edge_def)
  then show ?thesis
    by (simp add: nonneg_weights_def node_ids_def wsum_def edge_weight_def
        dead_end_graph_def mk_node_def mk_edge_def)
qed

text \<open>
  Weights whose sum is beyond the largest double.  The graph has the nodes 1, 2 and 3
  and the live path \<open>1 \<rightarrow> 2 \<rightarrow> 3\<close>, each edge of the weight \<^verbatim>\<open>2^1023\<close>.  The sum of
  the two weights is \<^verbatim>\<open>Infinity\<close>, which is not less than the \<^verbatim>\<open>Infinity\<close> that
  \<^verbatim>\<open>dist[3]\<close> starts with, and \<^verbatim>\<open>dijkstra(1, 3, graph)\<close> returns the no-path result.
\<close>

lemma dijkstra_overflowing_weights:
  "nonneg_weights overflow_graph \<and>
   edge_path overflow_graph 1 [mk_edge 1 2 1 None (num huge), mk_edge 2 3 1 None (num huge)] 3 \<and>
   live overflow_graph [mk_edge 1 2 1 None (num huge), mk_edge 2 3 1 None (num huge)] \<and>
   wsum [mk_edge 1 2 1 None (num huge), mk_edge 2 3 1 None (num huge)] = Infinity \<and>
   dijkstra 1 3 overflow_graph =
     Some \<lparr>path = [], totalWeight = Some Infinity, totalDistance = Fin 0, pathNodes = []\<rparr>"
proof -
  have h: "0 < huge" "\<not> huge < 0" by (simp_all add: huge_def)
  have "dijkstra 1 3 overflow_graph =
     Some \<lparr>path = [], totalWeight = Some Infinity, totalDistance = Fin 0, pathNodes = []\<rparr>"
    by (simp add: dijkstra_eval search.simps overflow_graph_def mk_node_def mk_edge_def
        fl_huge fl_huge(2)[simplified] h)
  moreover have "0 \<le> huge" using h(1) by simp
  ultimately show ?thesis
    by (simp add: nonneg_weights_def node_ids_def live_def wsum_def edge_weight_def
        overflow_graph_def mk_node_def mk_edge_def fl_huge fl_huge(2)[simplified])
qed

text \<open>
  C1, amended.  For a graph with non-negative weights and unique node ids, with
  \<^verbatim>\<open>start\<close> and \<^verbatim>\<open>end\<close> ids of nodes, and with some live edge path from \<^verbatim>\<open>start\<close> to
  \<^verbatim>\<open>end\<close> (a path that enters nodes of \<^verbatim>\<open>graph.nodes\<close> only) whose weights, added
  up as doubles from \<^verbatim>\<open>start\<close> on, stay below \<^verbatim>\<open>Infinity\<close>, \<^verbatim>\<open>dijkstra\<close> returns;
  its \<^verbatim>\<open>path\<close> is the node sequence of a live edge path \<open>es\<close> from \<^verbatim>\<open>start\<close> to
  \<^verbatim>\<open>end\<close>, its \<^verbatim>\<open>totalWeight\<close> is the sum of the weights of \<open>es\<close>, added up as
  doubles from \<^verbatim>\<open>start\<close> on, this sum is finite, and no live edge path from
  \<^verbatim>\<open>start\<close> to \<^verbatim>\<open>end\<close> has a smaller such sum.
\<close>

theorem dijkstra_minimum_weight_path:
  assumes "nonneg_weights g" and "distinct (map nid (nodes g))"
    and "start \<in> node_ids g" and "endn \<in> node_ids g"
    and "edge_path g start es0 endn" and "live g es0" and "js_lt (wsum es0) Infinity"
  shows "\<exists>r es. dijkstra start endn g = Some r \<and>
           edge_path g start es endn \<and> live g es \<and>
           path r = map NodeId (start # map eto es) \<and>
           totalWeight r = Some (wsum es) \<and> js_lt (wsum es) Infinity \<and>
           (\<forall>es'. edge_path g start es' endn \<and> live g es' \<longrightarrow> \<not> js_lt (wsum es') (wsum es))"
  using dijkstra_optimal[OF assms(1,3,4,5,6,7)] .

theorem dijkstra_minimum_weight_path_witness:
  "\<exists>r es. dijkstra 1 3 detour_graph = Some r \<and>
     path r = [NodeId 1, NodeId 2, NodeId 3] \<and> totalWeight r = Some (Fin 5) \<and>
     edge_path detour_graph 1 es 3 \<and> wsum es = Fin 5 \<and>
     (\<forall>es'. edge_path detour_graph 1 es' 3 \<and> live detour_graph es' \<longrightarrow>
        \<not> js_lt (wsum es') (Fin 5))"
proof -
  let ?es0 = "[mk_edge 1 3 10 None (num 10)]"
  have h: "nonneg_weights detour_graph" "distinct (map nid (nodes detour_graph))"
    "1 \<in> node_ids detour_graph" "3 \<in> node_ids detour_graph"
    "edge_path detour_graph 1 ?es0 3" "live detour_graph ?es0" "js_lt (wsum ?es0) Infinity"
    by (simp_all add: nonneg_weights_def node_ids_def live_def wsum_def edge_weight_def
        detour_graph_def mk_node_def mk_edge_def)
  have ev: "dijkstra 1 3 detour_graph =
      Some \<lparr>path = [NodeId 1, NodeId 2, NodeId 3], totalWeight = Some (Fin 5),
            totalDistance = Fin 5,
            pathNodes = [Some (mk_node 1), Some (mk_node 2), Some (mk_node 3)]\<rparr>"
    by (simp add: dijkstra_eval search.simps detour_graph_def mk_node_def mk_edge_def)
  from dijkstra_minimum_weight_path[OF h] obtain r es where
    r: "dijkstra 1 3 detour_graph = Some r" "edge_path detour_graph 1 es 3"
    "totalWeight r = Some (wsum es)"
    "\<forall>es'. edge_path detour_graph 1 es' 3 \<and> live detour_graph es' \<longrightarrow>
        \<not> js_lt (wsum es') (wsum es)"
    by blast
  from r(1,3) ev have "wsum es = Fin 5" by simp
  with r ev show ?thesis by auto
qed

section \<open>Claim C8: raising a flow coefficient\<close>

text \<open>
  C8 (the code departs from the claim).  The graph has the single edge \<open>1 \<rightarrow> 2\<close> of
  distance 10.  With the \<^verbatim>\<open>morning\<close> coefficient 0 the route from 1 to 2 gets
  \<^verbatim>\<open>totalWeight\<close> 12; with the coefficient raised to 0.1 (the double that the
  literal denotes), everything else fixed, it gets 11: raising the coefficient lowered
  the total weight of the path that uses the edge.
\<close>

theorem raising_zero_coefficient_lowers_totalWeight:
  "map_option totalWeight
     (weigh_and_route (one_edge_graph (Some [''morning'' \<mapsto> 0])) ''morning'' 1 2) =
     Some (Some (Fin 12)) \<and>
   map_option totalWeight
     (weigh_and_route (one_edge_graph (Some [''morning'' \<mapsto> dbl 0.1])) ''morning'' 1 2) =
     Some (Some (Fin 11))"
  unfolding weigh_and_route_def weigh_zero_coefficient weigh_tenth_coefficient sum.case
  by (simp add: dijkstra_eval search.simps mk_node_def mk_edge_def)

subsection \<open>Coefficients that are not 0\<close>

text \<open>A finite \<^verbatim>\<open>totalWeight\<close> is returned only when \<^verbatim>\<open>start\<close> and \<^verbatim>\<open>end\<close> are ids of
  nodes joined by a live path, and it is the sum of such a path.\<close>

lemma dijkstra_Fin_path:
  assumes "dijkstra start endn g = Some r" and "totalWeight r = Some (Fin d)"
  shows "start \<in> node_ids g \<and> endn \<in> node_ids g \<and>
         (\<exists>es. edge_path g start es endn \<and> live g es \<and> wsum es = Fin d)"
proof -
  let ?s = "search g endn (init_state start g)"
  have en: "endn \<in> node_ids g"
    using assms(1) dijkstra_missing_end[of endn g start] by (cases "endn \<in> node_ids g") auto
  have "search_inv g start ?s" using search_inv_init by (rule search_inv_search)
  with en have "tbl_ok g start (unvisited ?s) (dists ?s) (prevs ?s) endn"
    unfolding search_inv_def by blast
  then consider (untouched) "dists ?s endn = Some Infinity" "prevs ?s endn = Some None"
    | (found) es where "edge_path g start es endn" "dists ?s endn = Some (wsum es)"
        "chain (prevs ?s) endn (start # map eto es)"
        "set (map efrom es) \<subseteq> node_ids g - set (unvisited ?s)"
    unfolding tbl_ok_def by blast
  then show ?thesis
  proof cases
    case untouched
    from untouched(2) have "chain (prevs ?s) endn [endn]" by (rule chain.root)
    from backtrack_chain[OF this, of "[]"]
    have "backtrack (prevs ?s) (NodeId endn) [] = Some [NodeId endn]" by simp
    with assms untouched(1) have False
      by (auto simp: dijkstra_def Let_def first_of_def no_path_def split: if_splits)
    then show ?thesis ..
  next
    case found
    have lv: "live g es" using found(1,4) en by (rule tbl_ok_live)
    have "set (start # map eto es) = set (map efrom es) \<union> {endn}"
      using found(1) by (rule edge_path_nodes)
    moreover have "start \<in> set (start # map eto es)" by simp
    ultimately have "start \<in> set (map efrom es) \<union> {endn}" by blast
    with found(4) en have st: "start \<in> node_ids g" by blast
    from backtrack_chain[OF found(3), of "[]"]
    have "backtrack (prevs ?s) (NodeId endn) [] = Some (map NodeId (start # map eto es))"
      by simp
    with assms have "dists ?s endn = Some (Fin d)"
      by (auto simp: dijkstra_def Let_def first_of_def)
    with found(2) have "wsum es = Fin d" by simp
    with st en found(1) lv show ?thesis by blast
  qed
qed

lemma list_all2_partner:
  "list_all2 P xs ys \<Longrightarrow> y \<in> set ys \<Longrightarrow> \<exists>x\<in>set xs. P x y"
  by (induction rule: list_all2_induct) auto

lemma path_transfer:
  assumes h: "list_all2 heavier (edges W) (edges W')" and ids: "node_ids W' = node_ids W"
    and nn: "nonneg_weights W" "nonneg_weights W'"
  shows "edge_path W' u es' v \<Longrightarrow> live W' es' \<Longrightarrow>
         \<exists>es. edge_path W u es v \<and> live W es \<and> \<not> js_lt (wsum es') (wsum es)"
proof (induction es' arbitrary: v rule: rev_induct)
  case Nil
  then have "edge_path W u [] v \<and> live W [] \<and> \<not> js_lt (wsum []) (wsum [])"
    by (simp add: live_def js_lt_irrefl)
  then show ?case by blast
next
  case (snoc e' es')
  from snoc.prems(1) have pre: "edge_path W' u es' (efrom e')"
    and e': "e' \<in> set (edges W')" "eto e' = v"
    by (auto simp: edge_path_append)
  from snoc.prems(2) have lv: "live W' es'" and to: "eto e' \<in> node_ids W'"
    by (simp_all add: live_def)
  from list_all2_partner[OF h e'(1)] obtain e where
    e: "e \<in> set (edges W)" "heavier e e'" by blast
  from e(2) obtain w w' where w: "efrom e' = efrom e" "eto e' = eto e"
    "edge_weight e = Fin w" "edge_weight e' = Fin w'" "0 \<le> w" "w \<le> w'"
    unfolding heavier_def by blast
  from snoc.IH[OF pre lv] obtain es where
    es: "edge_path W u es (efrom e')" "live W es" "\<not> js_lt (wsum es') (wsum es)" by blast
  have p: "edge_path W u (es @ [e]) v"
    using es(1) e(1) w(1,2) e'(2) by (simp add: edge_path_append)
  have l: "live W (es @ [e])" using es(2) to w(2) ids by (simp add: live_def)
  have n: "nonneg_double (wsum es)"
    using nn(1) edge_path_subset[OF es(1)] by (rule wsum_nonneg)
  have n': "nonneg_double (wsum es')"
    using nn(2) edge_path_subset[OF pre] by (rule wsum_nonneg)
  have "\<not> js_lt (js_add (wsum es') (Fin w')) (js_add (wsum es) (Fin w))"
    using es(3) n n' w(5,6) by (rule js_add_mono)
  then have "\<not> js_lt (wsum (es' @ [e'])) (wsum (es @ [e]))"
    by (simp add: wsum_snoc w(3,4))
  with p l show ?case by blast
qed

text \<open>Between two weighted graphs with the same nodes and edges, none of whose weights
  is negative: if no weight is lower in the second, the \<^verbatim>\<open>totalWeight\<close> is not lower.\<close>

lemma totalWeight_monotone:
  assumes nn: "nonneg_weights W" "nonneg_weights W'"
    and same: "nodes W' = nodes W" "list_all2 heavier (edges W) (edges W')"
    and r: "dijkstra start endn W = Some r" "totalWeight r = Some (Fin d)"
    and r': "dijkstra start endn W' = Some r'" "totalWeight r' = Some (Fin d')"
  shows "d \<le> d'"
proof -
  have ids: "node_ids W' = node_ids W" using same(1) by (simp add: node_ids_def)
  from dijkstra_Fin_path[OF r'] obtain es' where
    p': "start \<in> node_ids W'" "endn \<in> node_ids W'" "edge_path W' start es' endn"
    "live W' es'" "wsum es' = Fin d'" by blast
  from path_transfer[OF same(2) ids nn p'(3,4)] obtain es where
    es: "edge_path W start es endn" "live W es" "\<not> js_lt (wsum es') (wsum es)" by blast
  have n: "nonneg_double (wsum es)"
    using nn(1) edge_path_subset[OF es(1)] by (rule wsum_nonneg)
  then have nan: "wsum es \<noteq> NaN" by (rule nonneg_double_not_NaN)
  have "js_lt (wsum es') Infinity" by (simp add: p'(5))
  with es(3) have below: "js_lt (wsum es) Infinity" using nan by (rule js_le_below)
  from dijkstra_optimal[OF nn(1) _ _ es(1,2) below] p'(1,2) ids r obtain esW where
    "wsum esW = Fin d"
    "\<forall>es'. edge_path W start es' endn \<and> live W es' \<longrightarrow> \<not> js_lt (wsum es') (wsum esW)"
    by auto
  with es(1,2) have "\<not> js_lt (wsum es) (Fin d)" by auto
  from this es(3) nan have "\<not> js_lt (wsum es') (Fin d)" by (rule js_le_trans)
  then show ?thesis by (simp add: p'(5))
qed

text \<open>The weight written is monotone in the coefficient, as long as it is finite.\<close>

lemma written_weight_mono:
  assumes "0 \<le> x" and "0 \<le> c" and "c \<le> c'"
    and "js_mul (Fin x) (js_add (Fin 1) (Fin c)) = Fin w"
    and "js_mul (Fin x) (js_add (Fin 1) (Fin c')) = Fin w'"
  shows "0 \<le> w \<and> w \<le> w'"
proof -
  have c: "0 \<le> 1 + c" "1 + c \<le> 1 + c'" "0 \<le> 1 + c'" using assms(2,3) by simp_all
  from fl_nonneg[OF c(1)] assms(4) obtain y where y: "fl (1 + c) = Fin y" "0 \<le> y"
    by (auto split: if_splits)
  from fl_nonneg[OF c(3)] assms(5) obtain y' where y': "fl (1 + c') = Fin y'" "0 \<le> y'"
    by (auto split: if_splits)
  from fl_mono[OF c(1,2)] have yy: "y \<le> y'" by (simp add: y y')
  have m: "0 \<le> x * y" "x * y \<le> x * y'" using assms(1) y(2) yy by (simp_all add: mult_left_mono)
  from assms(4,5) have w: "fl (x * y) = Fin w" "fl (x * y') = Fin w'" by (simp_all add: y y')
  from fl_mono[OF m] have "w \<le> w'" by (simp add: w)
  moreover from fl_nonneg[OF m(1)] have "0 \<le> w" by (simp add: w)
  ultimately show ?thesis by simp
qed

text \<open>For coefficients that are positive (or absent, or unchanged), the claim of
  monotonicity holds of the code, as long as every weight written is a finite number
  that is not negative: raising coefficients for the period, with the nodes, the edges
  and their distances fixed, does not lower the \<^verbatim>\<open>totalWeight\<close>.\<close>

lemma raising_positive_coefficient:
  assumes same: "nodes g' = nodes g" "list_all2 (raised p) (edges g) (edges g')"
    and W: "initEdgeWeights g p = Inr W" "nonneg_weights W"
    and W': "initEdgeWeights g' p = Inr W'" "nonneg_weights W'"
    and r: "dijkstra start endn W = Some r" "totalWeight r = Some (Fin d)"
    and r': "dijkstra start endn W' = Some r'" "totalWeight r' = Some (Fin d')"
  shows "d \<le> d'"
proof -
  from W(1) obtain es where es: "setWeights p (edges g) = Inr es" "W = g\<lparr>edges := es\<rparr>"
    by (auto simp: initEdgeWeights_values split: sum.splits)
  from W'(1) obtain es' where es': "setWeights p (edges g') = Inr es'" "W' = g'\<lparr>edges := es'\<rparr>"
    by (auto simp: initEdgeWeights_values split: sum.splits)
  note n = setWeights_nth[OF es(1)] and n' = setWeights_nth[OF es'(1)]
  have len: "length (edges g') = length (edges g)"
    using same(2) by (simp add: list_all2_lengthD)
  have l: "length es = length (edges g)" "length es' = length (edges g)"
    using n n' len by simp_all
  have each: "heavier (es ! i) (es' ! i)" if i: "i < length (edges g)" for i
  proof -
    let ?e = "edges g ! i" and ?e' = "edges g' ! i"
    from n i obtain f where f: "flow ?e = Some f"
      "es ! i = ?e\<lparr>weight := Some (Num (written_weight (distance ?e) (f p) p))\<rparr>"
      by blast
    from n' i len obtain f' where f': "flow ?e' = Some f'"
      "es' ! i = ?e'\<lparr>weight := Some (Num (written_weight (distance ?e') (f' p) p))\<rparr>"
      by auto
    have ra: "raised p ?e ?e'"
      using same(2) i by (simp add: list_all2_nthD)
    then have d: "efrom ?e' = efrom ?e" "eto ?e' = eto ?e"
      "distance ?e' = distance ?e" "0 \<le> distance ?e"
      by (simp_all add: raised_def)
    have "es ! i \<in> set (edges W)" using i l(1) es(2) by simp
    with W(2) f(2) obtain w where w: "written_weight (distance ?e) (f p) p = Fin w" "0 \<le> w"
      unfolding nonneg_weights_def by fastforce
    have "es' ! i \<in> set (edges W')" using i l(2) es'(2) by simp
    with W'(2) f'(2) d(3) obtain w' where w': "written_weight (distance ?e) (f' p) p = Fin w'"
      unfolding nonneg_weights_def by fastforce
    from ra f(1) f'(1) consider (same) "f' p = f p"
      | (up) c c' where "f p = Some c" "f' p = Some c'" "0 < c" "c \<le> c'"
      unfolding raised_def by auto
    then have "w \<le> w'"
    proof cases
      case same
      with w(1) w'(1) show ?thesis by simp
    next
      case up
      from w(1) w'(1) up have
        "js_mul (Fin (distance ?e)) (js_add (Fin 1) (Fin c)) = Fin w"
        "js_mul (Fin (distance ?e)) (js_add (Fin 1) (Fin c')) = Fin w'"
        by (simp_all add: written_weight_def del: js_add.simps js_mul.simps)
      with written_weight_mono[OF d(4), of c c' w w'] up(3,4) show ?thesis by simp
    qed
    with w w' f(2) f'(2) d show ?thesis
      by (simp add: heavier_def edge_weight_def)
  qed
  have h: "list_all2 heavier (edges W) (edges W')"
    unfolding es(2) es'(2) using l each by (auto intro!: list_all2_all_nthI)
  have "nodes W' = nodes W" using same(1) es(2) es'(2) by simp
  with W(2) W'(2) show ?thesis using h r r' by (rule totalWeight_monotone)
qed

section \<open>Facts about stores\<close>

subsection \<open>Reading\<close>

lemma obj_at_Some: "obj_at h a = Some ob \<longleftrightarrow> a < length h \<and> h ! a = ob"
  by (auto simp: obj_at_def)

lemma read_node_Some: "read_node h a = Some n \<longleftrightarrow> a < length h \<and> h ! a = NodeObj n"
  by (auto simp: read_node_def obj_at_def split: obj.splits)

lemma read_array_Some: "read_array h a = Some as \<longleftrightarrow> a < length h \<and> h ! a = ArrayObj as"
  by (auto simp: read_array_def obj_at_def split: obj.splits)

lemma read_edge_Some:
  "read_edge h a = Some e \<longleftrightarrow>
     a < length h \<and>
     ((h ! a = EdgeObj (efrom e) (eto e) (distance e) None (weight e) \<and> flow e = None) \<or>
      (\<exists>fa m. h ! a = EdgeObj (efrom e) (eto e) (distance e) (Some fa) (weight e) \<and>
         fa < length h \<and> h ! fa = FlowObj m \<and> flow e = Some m))"
  by (cases e) (auto simp: read_edge_def obj_at_def split: obj.splits option.splits)

lemma read_edge_cases:
  assumes "read_edge h a = Some e"
  obtains (none) "a < length h"
      "h ! a = EdgeObj (efrom e) (eto e) (distance e) None (weight e)" "flow e = None"
  | (some) fa m where "a < length h"
      "h ! a = EdgeObj (efrom e) (eto e) (distance e) (Some fa) (weight e)"
      "fa < length h" "h ! fa = FlowObj m" "flow e = Some m"
  using assms[unfolded read_edge_Some] by (elim conjE disjE exE) blast+

lemma read_all_mem:
  "read_all rd as = Some xs \<Longrightarrow> a \<in> set as \<Longrightarrow> \<exists>x. rd a = Some x"
  by (induction as arbitrary: xs) (auto split: option.splits)

lemma read_all_cong:
  "(\<And>a. a \<in> set as \<Longrightarrow> rd' a = rd a) \<Longrightarrow> read_all rd' as = read_all rd as"
  by (induction as) (auto split: option.splits)

lemma read_all_mono:
  "read_all rd as = Some xs \<Longrightarrow> (\<And>a x. rd a = Some x \<Longrightarrow> rd' a = Some x) \<Longrightarrow>
   read_all rd' as = Some xs"
  by (induction as arbitrary: xs) (auto split: option.splits)

lemma read_graph_Some:
  "read_graph h a = Some g \<longleftrightarrow>
     (\<exists>na ea ns es. obj_at h a = Some (GraphObj na ea) \<and>
        read_array h na = Some ns \<and> read_array h ea = Some es \<and>
        read_all (read_node h) ns = Some (nodes g) \<and>
        read_all (read_edge h) es = Some (edges g))"
  by (cases g) (auto simp: read_graph_def split: option.splits obj.splits)

subsection \<open>Appending objects\<close>

lemma extends_refl: "extends h h"
  by (simp add: extends_def)

lemma extends_trans: "extends h h1 \<Longrightarrow> extends h1 h2 \<Longrightarrow> extends h h2"
  by (auto simp: extends_def)

lemma extends_length: "extends h h' \<Longrightarrow> length h \<le> length h'"
  by (auto simp: extends_def)

lemma extends_nth: "extends h h' \<Longrightarrow> a < length h \<Longrightarrow> h' ! a = h ! a"
  by (auto simp: extends_def nth_append)

lemma extends_take: "extends h h' \<longleftrightarrow> take (length h) h' = h"
  unfolding extends_def by (metis append_eq_conv_conj append_take_drop_id)

lemma obj_at_extends: "extends h h' \<Longrightarrow> obj_at h a = Some ob \<Longrightarrow> obj_at h' a = Some ob"
  using extends_length[of h h'] by (auto simp: obj_at_Some extends_nth)

lemma stable_read_node: "stable_read read_node"
  unfolding stable_read_def read_node_Some
  using extends_length extends_nth by fastforce

lemma stable_read_array: "extends h h' \<Longrightarrow> read_array h a = Some as \<Longrightarrow> read_array h' a = Some as"
  unfolding read_array_Some using extends_length[of h h'] by (auto simp: extends_nth)

lemma stable_read_edge: "stable_read read_edge"
proof -
  have "read_edge h' a = Some e" if "extends h h'" "read_edge h a = Some e" for h h' a e
  proof -
    note len = extends_length[OF that(1)] and nth = extends_nth[OF that(1)]
    from that(2) show ?thesis
      unfolding read_edge_Some using len nth by (auto simp: less_le_trans)
  qed
  then show ?thesis unfolding stable_read_def by blast
qed

lemma read_graph_extends:
  assumes "extends h h'" and "read_graph h a = Some g"
  shows "read_graph h' a = Some g"
proof -
  from assms(2) obtain na ea ns es where
    g: "obj_at h a = Some (GraphObj na ea)" "read_array h na = Some ns"
    "read_array h ea = Some es" "read_all (read_node h) ns = Some (nodes g)"
    "read_all (read_edge h) es = Some (edges g)"
    unfolding read_graph_Some by blast
  have n: "read_node h' a = Some x" if "read_node h a = Some x" for a x
    using stable_read_node assms(1) that unfolding stable_read_def by blast
  have e: "read_edge h' a = Some x" if "read_edge h a = Some x" for a x
    using stable_read_edge assms(1) that unfolding stable_read_def by blast
  have "read_all (read_node h') ns = Some (nodes g)"
    using g(4) n by (rule read_all_mono)
  moreover have "read_all (read_edge h') es = Some (edges g)"
    using g(5) e by (rule read_all_mono)
  moreover note obj_at_extends[OF assms(1) g(1)]
    stable_read_array[OF assms(1) g(2)] stable_read_array[OF assms(1) g(3)]
  ultimately show ?thesis
    unfolding read_graph_Some by (intro exI conjI)
qed

lemma alloc_spec:
  assumes "alloc h ob = (h', a)" and "n \<le> length h" and "closed_from n h"
    and "\<forall>c\<in>set (refs ob). n \<le> c"
  shows "extends h h'" "closed_from n h'" "a = length h" "length h' = Suc (length h)"
    "h' ! a = ob"
proof -
  from assms(1) have h': "h' = h @ [ob]" and a: "a = length h" by (simp_all add: alloc_def)
  show "extends h h'" using h' by (simp add: extends_def)
  show "a = length h" by fact
  show "length h' = Suc (length h)" using h' by simp
  show "h' ! a = ob" using h' a by simp
  show "closed_from n h'"
    unfolding closed_from_def
  proof (intro allI impI)
    fix b assume b: "n \<le> b \<and> b < length h'"
    show "\<forall>c\<in>set (refs (h' ! b)). n \<le> c"
    proof (cases "b < length h")
      case True
      then have "h' ! b = h ! b" using h' by (simp add: nth_append)
      with assms(3) b True show ?thesis unfolding closed_from_def by auto
    next
      case False
      with b h' have "b = length h" by simp
      then have "h' ! b = ob" using h' by simp
      with assms(4) show ?thesis by simp
    qed
  qed
qed

lemma allocator_node: "allocator n read_node alloc_node"
  unfolding allocator_def
proof (intro allI impI)
  fix h x h' a
  assume "alloc_node h x = (h', a) \<and> n \<le> length h \<and> closed_from n h"
  then have al: "alloc h (NodeObj x) = (h', a)" and n: "n \<le> length h" and c: "closed_from n h"
    by (simp_all add: alloc_node_def)
  have r: "\<forall>c\<in>set (refs (NodeObj x)). n \<le> c" by simp
  note s = alloc_spec[OF al n c r]
  from s(3,4,5) have "read_node h' a = Some x" by (simp add: read_node_Some)
  with s show "extends h h' \<and> closed_from n h' \<and> length h \<le> a \<and> a < length h' \<and>
      read_node h' a = Some x" by simp
qed

lemma allocator_edge: "allocator n read_edge alloc_edge"
  unfolding allocator_def
proof (intro allI impI)
  fix h e h' a
  assume "alloc_edge h e = (h', a) \<and> n \<le> length h \<and> closed_from n h"
  then have al: "alloc_edge h e = (h', a)" and n: "n \<le> length h" and c: "closed_from n h"
    by simp_all
  show "extends h h' \<and> closed_from n h' \<and> length h \<le> a \<and> a < length h' \<and>
      read_edge h' a = Some e"
  proof (cases "flow e")
    case None
    let ?ob = "EdgeObj (efrom e) (eto e) (distance e) None (weight e)"
    from al None have al': "alloc h ?ob = (h', a)" by (simp add: alloc_edge_def)
    have r: "\<forall>c\<in>set (refs ?ob). n \<le> c" by simp
    note s = alloc_spec[OF al' n c r]
    from s(3,4,5) None have "read_edge h' a = Some e" by (simp add: read_edge_Some)
    with s show ?thesis by simp
  next
    case (Some m)
    obtain h1 fa where f: "alloc h (FlowObj m) = (h1, fa)" by (cases "alloc h (FlowObj m)")
    let ?ob = "EdgeObj (efrom e) (eto e) (distance e) (Some fa) (weight e)"
    from al Some f have al': "alloc h1 ?ob = (h', a)" by (simp add: alloc_edge_def)
    have r1: "\<forall>c\<in>set (refs (FlowObj m)). n \<le> c" by simp
    note s1 = alloc_spec[OF f n c r1]
    have n1: "n \<le> length h1" using s1(4) n by simp
    have r2: "\<forall>c\<in>set (refs ?ob). n \<le> c" using s1(3) n by simp
    note s2 = alloc_spec[OF al' n1 s1(2) r2]
    have "h' ! fa = FlowObj m"
      using extends_nth[OF s2(1), of fa] s1(3,4,5) by simp
    with s2(3,4,5) s1(3,4) Some have "read_edge h' a = Some e"
      by (simp add: read_edge_Some)
    moreover have "extends h h'" using s1(1) s2(1) by (rule extends_trans)
    ultimately show ?thesis using s2 s1(4) by simp
  qed
qed

lemma alloc_all_spec:
  assumes al: "allocator n rd f" and st: "stable_read rd"
  shows "alloc_all f h xs = (h', as) \<Longrightarrow> n \<le> length h \<Longrightarrow> closed_from n h \<Longrightarrow>
         extends h h' \<and> closed_from n h' \<and>
         (\<forall>a\<in>set as. length h \<le> a \<and> a < length h') \<and>
         read_all (rd h') as = Some xs \<and> distinct as"
proof (induction xs arbitrary: h h' as)
  case Nil
  then show ?case by (simp add: extends_refl)
next
  case (Cons x xs)
  obtain h1 a where f: "f h x = (h1, a)" by (cases "f h x")
  obtain h2 as' where r: "alloc_all f h1 xs = (h2, as')" by (cases "alloc_all f h1 xs")
  from Cons.prems(1) f r have eq: "h' = h2" "as = a # as'" by simp_all
  from al f Cons.prems(2,3) have s: "extends h h1" "closed_from n h1" "length h \<le> a"
    "a < length h1" "rd h1 a = Some x"
    unfolding allocator_def by blast+
  have n1: "n \<le> length h1" using Cons.prems(2) s(3,4) by simp
  from Cons.IH[OF r n1 s(2)] have ih: "extends h1 h2" "closed_from n h2"
    "\<forall>b\<in>set as'. length h1 \<le> b \<and> b < length h2"
    "read_all (rd h2) as' = Some xs" "distinct as'"
    by simp_all
  have "rd h2 a = Some x" using st ih(1) s(5) unfolding stable_read_def by blast
  moreover have "a \<notin> set as'" using ih(3) s(4) by auto
  moreover have "a < length h2" using s(4) extends_length[OF ih(1)] by simp
  moreover have "\<forall>b\<in>set as'. length h \<le> b"
    using ih(3) extends_length[OF s(1)] by auto
  moreover have "extends h h2" using s(1) ih(1) by (rule extends_trans)
  ultimately show ?case using ih s(3) unfolding eq by simp
qed

lemma alloc_graph_spec:
  assumes "alloc_graph h g = (h', a)"
  shows "\<exists>na ea ns es. extends h h' \<and> closed_from (length h) h' \<and> length h \<le> a \<and>
           obj_at h' a = Some (GraphObj na ea) \<and>
           read_array h' na = Some ns \<and> read_array h' ea = Some es \<and>
           read_all (read_node h') ns = Some (nodes g) \<and>
           read_all (read_edge h') es = Some (edges g) \<and>
           distinct es \<and> (\<forall>b\<in>set es. length h \<le> b)"
proof -
  let ?n = "length h"
  obtain h1 ns where a1: "alloc_all alloc_node h (nodes g) = (h1, ns)"
    by (cases "alloc_all alloc_node h (nodes g)")
  obtain h2 na where a2: "alloc h1 (ArrayObj ns) = (h2, na)"
    by (cases "alloc h1 (ArrayObj ns)")
  obtain h3 es where a3: "alloc_all alloc_edge h2 (edges g) = (h3, es)"
    by (cases "alloc_all alloc_edge h2 (edges g)")
  obtain h4 ea where a4: "alloc h3 (ArrayObj es) = (h4, ea)"
    by (cases "alloc h3 (ArrayObj es)")
  from assms a1 a2 a3 a4 have a5: "alloc h4 (GraphObj na ea) = (h', a)"
    by (simp add: alloc_graph_def)
  have c0: "closed_from ?n h" by (simp add: closed_from_def)
  from alloc_all_spec[OF allocator_node stable_read_node a1 _ c0]
  have s1: "extends h h1" "closed_from ?n h1" "\<forall>b\<in>set ns. ?n \<le> b \<and> b < length h1"
    "read_all (read_node h1) ns = Some (nodes g)"
    by simp_all
  have n1: "?n \<le> length h1" using s1(1) by (rule extends_length)
  have r2: "\<forall>c\<in>set (refs (ArrayObj ns)). ?n \<le> c" using s1(3) by simp
  note s2 = alloc_spec[OF a2 n1 s1(2) r2]
  have n2: "?n \<le> length h2" using n1 s2(4) by simp
  from alloc_all_spec[OF allocator_edge stable_read_edge a3 n2 s2(2)]
  have s3: "extends h2 h3" "closed_from ?n h3" "\<forall>b\<in>set es. length h2 \<le> b \<and> b < length h3"
    "read_all (read_edge h3) es = Some (edges g)" "distinct es"
    by simp_all
  have n3: "?n \<le> length h3" using n2 extends_length[OF s3(1)] by simp
  have r4: "\<forall>c\<in>set (refs (ArrayObj es)). ?n \<le> c" using s3(3) n2 by auto
  note s4 = alloc_spec[OF a4 n3 s3(2) r4]
  have n4: "?n \<le> length h4" using n3 s4(4) by simp
  have r5: "\<forall>c\<in>set (refs (GraphObj na ea)). ?n \<le> c"
    using s2(3) s4(3) n1 n3 by simp
  note s5 = alloc_spec[OF a5 n4 s4(2) r5]
  have e24: "extends h2 h4" using s3(1) s4(1) by (rule extends_trans)
  have e2: "extends h2 h'" using e24 s5(1) by (rule extends_trans)
  have e1: "extends h1 h'" using s2(1) e2 by (rule extends_trans)
  have e3: "extends h3 h'" using s4(1) s5(1) by (rule extends_trans)
  have e0: "extends h h'" using s1(1) e1 by (rule extends_trans)
  have "read_array h2 na = Some ns" using s2(3,4,5) by (simp add: read_array_Some)
  with e2 have ra1: "read_array h' na = Some ns" by (rule stable_read_array)
  have "read_array h4 ea = Some es" using s4(3,4,5) by (simp add: read_array_Some)
  with s5(1) have ra2: "read_array h' ea = Some es" by (rule stable_read_array)
  have "read_node h' b = Some x" if "read_node h1 b = Some x" for b x
    using stable_read_node e1 that unfolding stable_read_def by blast
  with s1(4) have rn: "read_all (read_node h') ns = Some (nodes g)"
    by (rule read_all_mono)
  have "read_edge h' b = Some x" if "read_edge h3 b = Some x" for b x
    using stable_read_edge e3 that unfolding stable_read_def by blast
  with s3(4) have re: "read_all (read_edge h') es = Some (edges g)"
    by (rule read_all_mono)
  have ob: "obj_at h' a = Some (GraphObj na ea)" using s5(3,4,5) by (simp add: obj_at_Some)
  have fresh: "\<forall>b\<in>set es. ?n \<le> b" using s3(3) n2 by auto
  have "?n \<le> a" using s5(3) n4 by simp
  with e0 s5(2) ob ra1 ra2 rn re s3(5) fresh show ?thesis by (intro exI conjI)
qed

subsection \<open>Overwriting weights\<close>

lemma weights_only_refl: "weights_only A h h"
  by (simp add: weights_only_def)

lemma weights_only_mono: "weights_only A h h' \<Longrightarrow> A \<subseteq> B \<Longrightarrow> weights_only B h h'"
  unfolding weights_only_def by blast

lemma weights_only_trans:
  assumes "weights_only A h h1" and "weights_only A h1 h2"
  shows "weights_only A h h2"
  unfolding weights_only_def
proof (intro conjI allI impI)
  show "length h2 = length h" using assms by (simp add: weights_only_def)
next
  fix a assume a: "a < length h"
  then have a1: "a < length h1" using assms(1) by (simp add: weights_only_def)
  from assms(1) a have 1: "h1 ! a = h ! a \<or>
      (a \<in> A \<and> (\<exists>f t d fo w w'. h ! a = EdgeObj f t d fo w \<and> h1 ! a = EdgeObj f t d fo w'))"
    unfolding weights_only_def by blast
  from assms(2) a1 have 2: "h2 ! a = h1 ! a \<or>
      (a \<in> A \<and> (\<exists>f t d fo w w'. h1 ! a = EdgeObj f t d fo w \<and> h2 ! a = EdgeObj f t d fo w'))"
    unfolding weights_only_def by blast
  show "h2 ! a = h ! a \<or>
      (a \<in> A \<and> (\<exists>f t d fo w w'. h ! a = EdgeObj f t d fo w \<and> h2 ! a = EdgeObj f t d fo w'))"
  proof (cases "h1 ! a = h ! a")
    case True
    with 2 show ?thesis by simp
  next
    case False
    with 1 obtain f t d fo w w' where A: "a \<in> A" and e: "h ! a = EdgeObj f t d fo w"
      "h1 ! a = EdgeObj f t d fo w'" by blast
    show ?thesis
    proof (cases "h2 ! a = h1 ! a")
      case True
      with A e show ?thesis by simp
    next
      case False
      with 2 e(2) obtain w'' where "h2 ! a = EdgeObj f t d fo w''" by auto
      with A e(1) show ?thesis by simp
    qed
  qed
qed

lemma weights_only_update:
  "weights_only {a} h (h[a := set_weight (h ! a) x])"
  unfolding weights_only_def
proof (intro conjI allI impI)
  show "length (h[a := set_weight (h ! a) x]) = length h" by simp
next
  fix b assume b: "b < length h"
  show "h[a := set_weight (h ! a) x] ! b = h ! b \<or>
        (b \<in> {a} \<and> (\<exists>f t d fo w w'. h ! b = EdgeObj f t d fo w \<and>
           h[a := set_weight (h ! a) x] ! b = EdgeObj f t d fo w'))"
  proof (cases "b = a")
    case False
    then show ?thesis by simp
  next
    case True
    with b show ?thesis by (cases "h ! a") (simp_all add: set_weight_def)
  qed
qed

lemma weights_only_refs:
  "weights_only A h h' \<Longrightarrow> a < length h \<Longrightarrow> refs (h' ! a) = refs (h ! a)"
  unfolding weights_only_def by (auto split: option.splits)

lemma weights_only_outside:
  "weights_only A h h' \<Longrightarrow> a \<notin> A \<Longrightarrow> a < length h \<Longrightarrow> h' ! a = h ! a"
  unfolding weights_only_def by blast

lemma weights_only_other:
  assumes "weights_only A h h'" and "a < length h" and "\<And>f t d fo w. EdgeObj f t d fo w \<noteq> ob"
  shows "h' ! a = ob \<longleftrightarrow> h ! a = ob"
proof -
  from assms(1,2) have "h' ! a = h ! a \<or>
      (\<exists>f t d fo w w'. h ! a = EdgeObj f t d fo w \<and> h' ! a = EdgeObj f t d fo w')"
    unfolding weights_only_def by blast
  then show ?thesis using assms(3) by (elim disjE exE conjE) simp_all
qed

lemma weights_only_length: "weights_only A h h' \<Longrightarrow> length h' = length h"
  by (simp add: weights_only_def)

lemma read_node_weights_only:
  "weights_only A h h' \<Longrightarrow> read_node h' a = Some n \<longleftrightarrow> read_node h a = Some n"
  unfolding read_node_Some
  using weights_only_other[of A h h' a "NodeObj n"] weights_only_length[of A h h'] by auto

lemma read_array_weights_only:
  "weights_only A h h' \<Longrightarrow> read_array h' a = Some as \<longleftrightarrow> read_array h a = Some as"
  unfolding read_array_Some
  using weights_only_other[of A h h' a "ArrayObj as"] weights_only_length[of A h h'] by auto

lemma obj_at_graph_weights_only:
  "weights_only A h h' \<Longrightarrow>
   obj_at h' a = Some (GraphObj na ea) \<longleftrightarrow> obj_at h a = Some (GraphObj na ea)"
  unfolding obj_at_Some
  using weights_only_other[of A h h' a "GraphObj na ea"] weights_only_length[of A h h'] by auto

lemma read_edge_weights_only:
  assumes w: "weights_only A h h'" and a: "a \<notin> A" and r: "read_edge h a = Some e"
  shows "read_edge h' a = Some e"
proof -
  note len = weights_only_length[OF w]
  from r have al: "a < length h" unfolding read_edge_Some by blast
  have same: "h' ! a = h ! a" using w a al by (rule weights_only_outside)
  from r show ?thesis
  proof (cases rule: read_edge_cases)
    case none
    then show ?thesis unfolding read_edge_Some using len same by simp
  next
    case (some fa m)
    have "h' ! fa = FlowObj m"
      using weights_only_other[OF w some(3), of "FlowObj m"] some(4) by simp
    with some show ?thesis unfolding read_edge_Some using len same by simp
  qed
qed

lemma read_edge_after_update:
  assumes "read_edge h a = Some e"
  shows "read_edge (h[a := set_weight (h ! a) x]) a = Some (e\<lparr>weight := Some (Num x)\<rparr>)"
proof -
  let ?h' = "h[a := set_weight (h ! a) x]"
  from assms have al: "a < length h" unfolding read_edge_Some by blast
  from assms show ?thesis
  proof (cases rule: read_edge_cases)
    case none
    then show ?thesis unfolding read_edge_Some by (simp add: set_weight_def)
  next
    case (some fa m)
    then have "fa \<noteq> a" by auto
    with some show ?thesis
      unfolding read_edge_Some by (simp add: set_weight_def)
  qed
qed

lemma store_weights_spec:
  assumes "read_all (read_edge h) as = Some es" and "distinct as"
  shows "\<exists>r h'. store_weights p h as = (r, h') \<and> weights_only (set as) h h' \<and>
           (case r of
              None \<Rightarrow> \<exists>es'. setWeights p es = Inr es' \<and> read_all (read_edge h') as = Some es'
            | Some err \<Rightarrow> setWeights p es = Inl err)"
  using assms
proof (induction as arbitrary: h es)
  case Nil
  then show ?case by (simp add: weights_only_refl)
next
  case (Cons a as)
  from Cons.prems(1) obtain e es0 where e: "read_edge h a = Some e"
    and es0: "read_all (read_edge h) as = Some es0" and es: "es = e # es0"
    by (auto split: option.splits)
  from Cons.prems(2) have a: "a \<notin> set as" and d: "distinct as" by simp_all
  show ?case
  proof (cases "flowRate e p")
    case (Inl err)
    then have "store_weights p h (a # as) = (Some err, h)" using e by simp
    moreover have "setWeights p es = Inl err" using Inl es by simp
    ultimately show ?thesis by (simp add: weights_only_refl)
  next
    case (Inr r)
    let ?x = "new_weight e r"
    let ?h1 = "h[a := set_weight (h ! a) ?x]"
    have w1: "weights_only {a} h ?h1" by (rule weights_only_update)
    have "read_edge ?h1 b = Some x" if "b \<in> set as" "read_edge h b = Some x" for b x
      using w1 _ that(2) by (rule read_edge_weights_only) (use that(1) a in auto)
    moreover have "\<exists>x. read_edge h b = Some x" if "b \<in> set as" for b
      using es0 that by (rule read_all_mem)
    ultimately have "read_edge ?h1 b = read_edge h b" if "b \<in> set as" for b
      using that by fastforce
    then have "read_all (read_edge ?h1) as = read_all (read_edge h) as"
      by (rule read_all_cong)
    with es0 have es1: "read_all (read_edge ?h1) as = Some es0" by simp
    from Cons.IH[OF es1 d] obtain r' h' where
      sw: "store_weights p ?h1 as = (r', h')" and w2: "weights_only (set as) ?h1 h'"
      and res: "case r' of
              None \<Rightarrow> \<exists>es'. setWeights p es0 = Inr es' \<and> read_all (read_edge h') as = Some es'
            | Some err \<Rightarrow> setWeights p es0 = Inl err"
      by blast
    have sw': "store_weights p h (a # as) = (r', h')" using e Inr sw by simp
    have "weights_only (set (a # as)) h ?h1" using w1 by (rule weights_only_mono) simp
    moreover have "weights_only (set (a # as)) ?h1 h'" using w2 by (rule weights_only_mono) auto
    ultimately have w: "weights_only (set (a # as)) h h'" by (rule weights_only_trans)
    have "read_edge ?h1 a = Some (e\<lparr>weight := Some (Num ?x)\<rparr>)"
      using e by (rule read_edge_after_update)
    with w2 a have ra: "read_edge h' a = Some (e\<lparr>weight := Some (Num ?x)\<rparr>)"
      by (rule read_edge_weights_only)
    show ?thesis
    proof (cases r')
      case None
      with res obtain es' where "setWeights p es0 = Inr es'"
        "read_all (read_edge h') as = Some es'" by auto
      with ra Inr es have "setWeights p es = Inr (e\<lparr>weight := Some (Num ?x)\<rparr> # es')"
        "read_all (read_edge h') (a # as) = Some (e\<lparr>weight := Some (Num ?x)\<rparr> # es')"
        by simp_all
      with sw' w None show ?thesis by simp
    next
      case (Some err)
      with res Inr es have "setWeights p es = Inl err" by simp
      with sw' w Some show ?thesis by simp
    qed
  qed
qed

lemma closed_from_weights_only:
  assumes "weights_only A h h'" and "closed_from n h"
  shows "closed_from n h'"
  unfolding closed_from_def
proof (intro allI impI)
  fix a assume a: "n \<le> a \<and> a < length h'"
  then have al: "a < length h" using weights_only_length[OF assms(1)] by simp
  have "refs (h' ! a) = refs (h ! a)" using assms(1) al by (rule weights_only_refs)
  with assms(2) a al show "\<forall>c\<in>set (refs (h' ! a)). n \<le> c"
    unfolding closed_from_def by auto
qed

lemma extends_weights_only:
  assumes "extends h h1" and "weights_only A h1 h2" and "\<forall>a\<in>A. length h \<le> a"
  shows "extends h h2"
  unfolding extends_take
proof (rule nth_equalityI)
  have len: "length h \<le> length h2"
    using extends_length[OF assms(1)] weights_only_length[OF assms(2)] by simp
  then show "length (take (length h) h2) = length h" by simp
  fix i assume "i < length (take (length h) h2)"
  then have i: "i < length h" by simp
  then have i1: "i < length h1" using extends_length[OF assms(1)] by simp
  have "i \<notin> A" using assms(3) i by auto
  with assms(2) i1 have "h2 ! i = h1 ! i" by (intro weights_only_outside)
  then show "take (length h) h2 ! i = h ! i"
    using i extends_nth[OF assms(1) i] by simp
qed

subsection \<open>What a graph reaches\<close>

lemma reachable_closed:
  assumes "closed_from n h" and "n \<le> a"
  shows "reachable h a b \<Longrightarrow> n \<le> b"
proof (induction rule: reachable.induct)
  case here
  show ?case by fact
next
  case (deref b c)
  with assms(1) show ?case unfolding closed_from_def by blast
qed

lemma reachable_input_old:
  assumes rg: "read_graph h graph = Some g" and ext: "extends h h'"
    and r: "reachable h' graph a"
  shows "a < length h"
proof -
  from rg obtain na ea ns es where
    g: "obj_at h graph = Some (GraphObj na ea)" "read_array h na = Some ns"
    "read_array h ea = Some es" "read_all (read_node h) ns = Some (nodes g)"
    "read_all (read_edge h) es = Some (edges g)"
    unfolding read_graph_Some by blast
  define fo where "fo = {fa. \<exists>b\<in>set es. \<exists>f t d w. h ! b = EdgeObj f t d (Some fa) w}"
  define S where "S = {graph, na, ea} \<union> set ns \<union> set es \<union> fo"
  have node: "b < length h \<and> refs (h ! b) = []" if "b \<in> set ns" for b
  proof -
    from read_all_mem[OF g(4) that] obtain n where "read_node h b = Some n" ..
    then show ?thesis by (simp add: read_node_Some)
  qed
  have edge: "b < length h \<and> set (refs (h ! b)) \<subseteq> fo" if "b \<in> set es" for b
  proof -
    from read_all_mem[OF g(5) that] obtain e where "read_edge h b = Some e" ..
    then show ?thesis
    proof (cases rule: read_edge_cases)
      case none
      then show ?thesis by simp
    next
      case (some fa m)
      with that have "fa \<in> fo" unfolding fo_def by blast
      with some show ?thesis by simp
    qed
  qed
  have flow: "c < length h \<and> refs (h ! c) = []" if "c \<in> fo" for c
  proof -
    from that obtain b f t d w where b: "b \<in> set es" "h ! b = EdgeObj f t d (Some c) w"
      unfolding fo_def by blast
    from read_all_mem[OF g(5) b(1)] obtain e where "read_edge h b = Some e" ..
    then show ?thesis
    proof (cases rule: read_edge_cases)
      case none
      with b(2) show ?thesis by simp
    next
      case (some fa m)
      with b(2) show ?thesis by simp
    qed
  qed
  have top: "graph < length h" "refs (h ! graph) = [na, ea]"
    "na < length h" "refs (h ! na) = ns" "ea < length h" "refs (h ! ea) = es"
    using g(1,2,3) by (simp_all add: obj_at_Some read_array_Some)
  have old: "b < length h" if "b \<in> S" for b
    using that top node edge flow unfolding S_def by auto
  have closed: "c \<in> S" if "b \<in> S" "c \<in> set (refs (h ! b))" for b c
    using that top node edge flow unfolding S_def by auto
  from r have "a \<in> S"
  proof (induction rule: reachable.induct)
    case here
    show ?case by (simp add: S_def)
  next
    case (deref b c)
    from deref.IH have "b < length h" by (rule old)
    with ext have "h' ! b = h ! b" by (rule extends_nth)
    with deref.hyps(3) deref.IH show ?case by (auto intro: closed)
  qed
  then show ?thesis by (rule old)
qed

section \<open>Claim C7: the input graph and the returned graph\<close>

text \<open>
  C7, counterexample.  The store holds a graph at address 5 whose edge has no flow
  mapping; the call throws, so no new graph instance is returned.
\<close>

theorem initEdgeWeights_store_throws:
  "read_graph store_no_flow 5 = Some (one_edge_graph None) \<and>
   map_option fst (initEdgeWeights_store store_no_flow 5 ''morning'') = Some (Inl TypeError)"
  by (simp add: store_eval store_no_flow_def example_defs)

text \<open>
  C7, amended.  For a store that holds a graph \<open>g\<close> at the address \<open>graph\<close>, and any
  period: the call yields an outcome and a store in which every object that existed
  before is unchanged, so that the input graph still reads as \<open>g\<close>, whether the call
  returns or throws.  The outcome is that of \<open>initEdgeWeights\<close> on values.  When every
  edge carries a flow mapping the call returns; and the graph it returns reads as the
  weighted graph and reaches only objects allocated by the call, none of which the
  input graph reaches.
\<close>

theorem initEdgeWeights_store_frame:
  assumes "read_graph h graph = Some g"
  shows "\<exists>res h'. initEdgeWeights_store h graph p = Some (res, h') \<and>
           take (length h) h' = h \<and> read_graph h' graph = Some g \<and>
           (case res of
              Inl err \<Rightarrow> initEdgeWeights g p = Inl err
            | Inr updatedGraph \<Rightarrow>
                (\<exists>g'. initEdgeWeights g p = Inr g' \<and> read_graph h' updatedGraph = Some g') \<and>
                (\<forall>a. reachable h' updatedGraph a \<longrightarrow>
                   length h \<le> a \<and> \<not> reachable h' graph a)) \<and>
           ((\<forall>e\<in>set (edges g). flow e \<noteq> None) \<longrightarrow> (\<exists>updatedGraph. res = Inr updatedGraph))"
proof -
  obtain h1 ug where ag: "alloc_graph h (json_graph g) = (h1, ug)"
    by (cases "alloc_graph h (json_graph g)")
  from alloc_graph_spec[OF ag] obtain na ea ns es where
    c: "extends h h1" "closed_from (length h) h1" "length h \<le> ug"
    "obj_at h1 ug = Some (GraphObj na ea)" "read_array h1 na = Some ns"
    "read_array h1 ea = Some es" "read_all (read_node h1) ns = Some (nodes g)"
    "read_all (read_edge h1) es = Some (map json_edge (edges g))" "distinct es"
    "\<forall>b\<in>set es. length h \<le> b"
    unfolding json_graph_def by auto
  from store_weights_spec[OF c(8,9), of p] obtain r h2 where
    sw: "store_weights p h1 es = (r, h2)" and w: "weights_only (set es) h1 h2"
    and res: "case r of
              None \<Rightarrow> \<exists>es'. setWeights p (edges g) = Inr es' \<and>
                        read_all (read_edge h2) es = Some es'
            | Some err \<Rightarrow> setWeights p (edges g) = Inl err"
    unfolding setWeights_json by blast
  let ?res = "case r of None \<Rightarrow> Inr ug | Some err \<Rightarrow> Inl err"
  have call: "initEdgeWeights_store h graph p = Some (?res, h2)"
    using assms ag c(4,6) sw
    by (simp add: initEdgeWeights_store_def json_copy_def split: option.splits)
  have ext: "extends h h2" using c(1) w c(10) by (rule extends_weights_only)
  then have frame: "take (length h) h2 = h" by (simp add: extends_take)
  have input: "read_graph h2 graph = Some g" using ext assms by (rule read_graph_extends)
  have outcome: "case ?res of
      Inl err \<Rightarrow> initEdgeWeights g p = Inl err
    | Inr updatedGraph \<Rightarrow>
        (\<exists>g'. initEdgeWeights g p = Inr g' \<and> read_graph h2 updatedGraph = Some g') \<and>
        (\<forall>a. reachable h2 updatedGraph a \<longrightarrow> length h \<le> a \<and> \<not> reachable h2 graph a)"
  proof (cases r)
    case (Some err)
    with res show ?thesis by (simp add: initEdgeWeights_values)
  next
    case None
    with res obtain es' where es': "setWeights p (edges g) = Inr es'"
      "read_all (read_edge h2) es = Some es'" by auto
    have "read_node h2 b = Some x" if "read_node h1 b = Some x" for b x
      using read_node_weights_only[OF w] that by simp
    with c(7) have "read_all (read_node h2) ns = Some (nodes g)" by (rule read_all_mono)
    moreover have "obj_at h2 ug = Some (GraphObj na ea)"
      using obj_at_graph_weights_only[OF w] c(4) by simp
    moreover have "read_array h2 na = Some ns" "read_array h2 ea = Some es"
      using read_array_weights_only[OF w] c(5,6) by simp_all
    ultimately have "read_graph h2 ug = Some (g\<lparr>edges := es'\<rparr>)"
      unfolding read_graph_Some using es'(2) by auto
    moreover have "initEdgeWeights g p = Inr (g\<lparr>edges := es'\<rparr>)"
      using es'(1) by (simp add: initEdgeWeights_values)
    moreover have "length h \<le> a \<and> \<not> reachable h2 graph a" if "reachable h2 ug a" for a
    proof -
      have "closed_from (length h) h2" using w c(2) by (rule closed_from_weights_only)
      from reachable_closed[OF this c(3) that] have "length h \<le> a" .
      moreover have "a < length h" if "reachable h2 graph a"
        using assms ext that by (rule reachable_input_old)
      ultimately show ?thesis by auto
    qed
    ultimately show ?thesis using None by simp
  qed
  have returns: "\<exists>updatedGraph. ?res = Inr updatedGraph" if "\<forall>e\<in>set (edges g). flow e \<noteq> None"
  proof -
    from setWeights_total[OF that, of p] obtain es' where "setWeights p (edges g) = Inr es'"
      by blast
    with res show ?thesis by (cases r) simp_all
  qed
  from call frame input outcome returns show ?thesis by blast
qed

theorem initEdgeWeights_store_frame_witness:
  "\<exists>h'. initEdgeWeights_store store_example 6 ''morning'' = Some (Inr 13, h') \<and>
     take (length store_example) h' = store_example \<and>
     read_graph h' 6 = Some (one_edge_graph (Some [''morning'' \<mapsto> 0.5])) \<and>
     map_option (map weight \<circ> edges) (read_graph h' 13) = Some [num 15] \<and>
     \<not> reachable h' 13 4"
proof -
  let ?g = "one_edge_graph (Some [''morning'' \<mapsto> 0.5])"
  have rg: "read_graph store_example 6 = Some ?g"
    by (simp add: store_eval store_example_def example_defs)
  have ev: "map_option fst (initEdgeWeights_store store_example 6 ''morning'') = Some (Inr 13)"
    by (simp add: store_eval store_example_def example_defs)
  let ?e = "mk_edge 1 2 10 (Some [''morning'' \<mapsto> 0.5]) None"
  have "flowRate ?e ''morning'' = Inr (Coefficient 0.5)"
    by (simp add: flowRate_def mk_edge_def)
  moreover have "new_weight ?e (Coefficient 0.5) = Fin 15"
    unfolding new_weight_def flow_value.case using weight_10_half by (simp add: mk_edge_def)
  ultimately have w: "initEdgeWeights ?g ''morning'' =
      Inr \<lparr>nodes = [mk_node 1, mk_node 2],
           edges = [mk_edge 1 2 10 (Some [''morning'' \<mapsto> 0.5]) (num 15)]\<rparr>"
    by (simp add: initEdgeWeights_values one_edge_graph_def) (simp add: mk_edge_def)
  from initEdgeWeights_store_frame[OF rg, of "''morning''"] obtain res h' where
    r: "initEdgeWeights_store store_example 6 ''morning'' = Some (res, h')"
    "take (length store_example) h' = store_example" "read_graph h' 6 = Some ?g"
    "case res of
       Inl err \<Rightarrow> initEdgeWeights ?g ''morning'' = Inl err
     | Inr updatedGraph \<Rightarrow>
         (\<exists>g'. initEdgeWeights ?g ''morning'' = Inr g' \<and> read_graph h' updatedGraph = Some g') \<and>
         (\<forall>a. reachable h' updatedGraph a \<longrightarrow>
            length store_example \<le> a \<and> \<not> reachable h' 6 a)"
    by blast
  from r(1) ev have res: "res = Inr 13" by simp
  with r(4) w have g': "read_graph h' 13 =
      Some \<lparr>nodes = [mk_node 1, mk_node 2],
            edges = [mk_edge 1 2 10 (Some [''morning'' \<mapsto> 0.5]) (num 15)]\<rparr>"
    and fresh: "\<forall>a. reachable h' 13 a \<longrightarrow> length store_example \<le> a"
    by auto
  from fresh have "\<not> reachable h' 13 4" by (auto simp: store_example_def)
  then show ?thesis using r(1,2,3) res g' by (auto simp: mk_edge_def)
qed

end
